theory Spec2Isabelle
  imports Complex_Main "HOL-Library.AList"
begin

section \<open>Python values used by the tracker\<close>

text \<open>
  A centroid is a pair of Python ints (see \<^verbatim>\<open>current_centroids.append((cX, cY))\<close>).
  A Python \<^verbatim>\<open>dict\<close> keeps its keys in insertion order, assigning to a present key keeps the
  key's place, and \<^verbatim>\<open>del\<close> of an absent key raises \<^verbatim>\<open>KeyError\<close>. A dict is therefore an
  association list in insertion order: \<open>AList.update\<close> overwrites in place or appends,
  \<open>AList.delete\<close> removes. Exceptions are values of \<open>py_error\<close>.
\<close>

type_synonym centroid = "int \<times> int"

type_synonym 'v dict = "(int \<times> 'v) list"

datatype py_error = KeyError | IndexError

definition dict_keys :: "'v dict \<Rightarrow> int list" where
  "dict_keys d = map fst d"

definition dict_get :: "'v dict \<Rightarrow> int \<Rightarrow> py_error + 'v" where
  "dict_get d k = (case map_of d k of None \<Rightarrow> Inl KeyError | Some v \<Rightarrow> Inr v)"

definition dict_del :: "int \<Rightarrow> 'v dict \<Rightarrow> py_error + 'v dict" where
  "dict_del k d = (if k \<in> set (dict_keys d) then Inr (AList.delete k d) else Inl KeyError)"

definition list_get :: "'a list \<Rightarrow> nat \<Rightarrow> py_error + 'a" where
  "list_get xs i = (if i < length xs then Inr (xs ! i) else Inl IndexError)"

text \<open>A \<^verbatim>\<open>for\<close> loop whose body may raise: the first exception ends the loop.\<close>

fun for_each :: "('a \<Rightarrow> 's \<Rightarrow> py_error + 's) \<Rightarrow> 'a list \<Rightarrow> 's \<Rightarrow> py_error + 's" where
  "for_each body [] s = Inr s"
| "for_each body (x # xs) s =
     (case body x s of Inl e \<Rightarrow> Inl e | Inr s' \<Rightarrow> for_each body xs s')"

section \<open>CentroidTracker\<close>

record CentroidTracker =
  nextObjectID :: int
  objects :: "centroid dict"
  disappeared :: "int dict"
  previousCentroids :: "centroid dict"
  counted :: "bool dict"
  maxDisappeared :: int

text \<open>\<^verbatim>\<open>CentroidTracker.__init__\<close>\<close>

definition CentroidTracker_init :: "int \<Rightarrow> CentroidTracker" where
  "CentroidTracker_init maxDisappeared' =
     \<lparr> nextObjectID = 0, objects = [], disappeared = [], previousCentroids = [],
       counted = [], maxDisappeared = maxDisappeared' \<rparr>"

text \<open>\<^verbatim>\<open>CentroidTracker.register\<close>\<close>

definition register :: "centroid \<Rightarrow> CentroidTracker \<Rightarrow> CentroidTracker" where
  "register centroid t =
     t\<lparr> objects := AList.update (nextObjectID t) centroid (objects t),
        disappeared := AList.update (nextObjectID t) 0 (disappeared t),
        previousCentroids := AList.update (nextObjectID t) centroid (previousCentroids t),
        counted := AList.update (nextObjectID t) False (counted t),
        nextObjectID := nextObjectID t + 1 \<rparr>"

text \<open>\<^verbatim>\<open>CentroidTracker.deregister\<close>: the guard looks at \<^verbatim>\<open>objects\<close> only; each of the
  three other \<^verbatim>\<open>del\<close> statements raises when its dict lacks the key.\<close>

definition deregister :: "int \<Rightarrow> CentroidTracker \<Rightarrow> py_error + CentroidTracker" where
  "deregister objectID t =
     (if objectID \<in> set (dict_keys (objects t)) then
        (case dict_del objectID (disappeared t) of Inl e \<Rightarrow> Inl e | Inr d \<Rightarrow>
        (case dict_del objectID (previousCentroids t) of Inl e \<Rightarrow> Inl e | Inr p \<Rightarrow>
        (case dict_del objectID (counted t) of Inl e \<Rightarrow> Inl e | Inr c \<Rightarrow>
           Inr (t\<lparr> objects := AList.delete objectID (objects t), disappeared := d,
                   previousCentroids := p, counted := c \<rparr>))))
      else Inr t)"

text \<open>The body shared by the two ageing loops of \<^verbatim>\<open>update\<close>:
  \<^verbatim>\<open>self.disappeared[objectID] += 1\<close>, then \<^verbatim>\<open>deregister\<close> when the count exceeds
  \<^verbatim>\<open>maxDisappeared\<close>.\<close>

definition age :: "int \<Rightarrow> CentroidTracker \<Rightarrow> py_error + CentroidTracker" where
  "age objectID t =
     (case dict_get (disappeared t) objectID of Inl e \<Rightarrow> Inl e | Inr n \<Rightarrow>
        (let t' = t\<lparr> disappeared := AList.update objectID (n + 1) (disappeared t) \<rparr>
         in if n + 1 > maxDisappeared t' then deregister objectID t' else Inr t'))"

text \<open>
  \<^verbatim>\<open>distance.cdist\<close> returns the Euclidean distances as floats. The tracker only compares
  them (\<^verbatim>\<open>min\<close>, \<^verbatim>\<open>argmin\<close>, \<^verbatim>\<open>argsort\<close>); the model keeps the squared distance, an
  exact integer with the same order and the same ties for pixel coordinates.
\<close>

definition sq_dist :: "centroid \<Rightarrow> centroid \<Rightarrow> int" where
  "sq_dist a b = (fst a - fst b) * (fst a - fst b) + (snd a - snd b) * (snd a - snd b)"

definition cdist :: "centroid list \<Rightarrow> centroid list \<Rightarrow> int list list" where
  "cdist xs ys = map (\<lambda>x. map (sq_dist x) ys) xs"

text \<open>\<^verbatim>\<open>argmin\<close> is the index of the first least entry. \<^verbatim>\<open>argsort\<close> lists the indices by
  ascending key; equal keys stay in index order (numpy leaves their order to the sorting
  kernel, the model fixes it).\<close>

definition argmin :: "int list \<Rightarrow> nat" where
  "argmin xs = length (takeWhile (\<lambda>x. x \<noteq> min_list xs) xs)"

definition argsort :: "int list \<Rightarrow> nat list" where
  "argsort ks = sort_key (\<lambda>i. ks ! i) [0..<length ks]"

text \<open>The loop \<^verbatim>\<open>for (row, col) in zip(rows, cols)\<close>, its state being the tracker and the
  two sets \<^verbatim>\<open>usedRows\<close>, \<^verbatim>\<open>usedCols\<close>.\<close>

fun match_rows ::
  "int list \<Rightarrow> centroid list \<Rightarrow> (nat \<times> nat) list \<Rightarrow> CentroidTracker \<times> nat set \<times> nat set
     \<Rightarrow> py_error + (CentroidTracker \<times> nat set \<times> nat set)" where
  "match_rows objectIDs inputCentroids [] s = Inr s"
| "match_rows objectIDs inputCentroids ((row, col) # rest) (t, usedRows, usedCols) =
     (if row \<in> usedRows \<or> col \<in> usedCols then
        match_rows objectIDs inputCentroids rest (t, usedRows, usedCols)
      else
        (case list_get objectIDs row of Inl e \<Rightarrow> Inl e | Inr objectID \<Rightarrow>
        (case dict_get (objects t) objectID of Inl e \<Rightarrow> Inl e | Inr old \<Rightarrow>
        (case list_get inputCentroids col of Inl e \<Rightarrow> Inl e | Inr new \<Rightarrow>
           match_rows objectIDs inputCentroids rest
             (t\<lparr> previousCentroids := AList.update objectID old (previousCentroids t),
                 objects := AList.update objectID new (objects t),
                 disappeared := AList.update objectID 0 (disappeared t) \<rparr>,
              insert row usedRows, insert col usedCols)))))"

text \<open>\<^verbatim>\<open>CentroidTracker.update\<close>. The returned mapping is the field \<open>objects\<close> of the
  returned tracker. The two set differences are walked in ascending order.\<close>

definition update :: "centroid list \<Rightarrow> CentroidTracker \<Rightarrow> py_error + CentroidTracker" where
  "update inputCentroids t =
     (if length inputCentroids = 0 then
        for_each age (dict_keys (disappeared t)) t
      else if length (objects t) = 0 then
        Inr (fold register inputCentroids t)
      else
        (let objectIDs = dict_keys (objects t);
             objectCentroids = map snd (objects t);
             D = cdist objectCentroids inputCentroids;
             rows = argsort (map min_list D);
             cols = map (\<lambda>r. argmin (D ! r)) rows
         in case match_rows objectIDs inputCentroids (zip rows cols) (t, {}, {}) of
              Inl e \<Rightarrow> Inl e
            | Inr (t1, usedRows, usedCols) \<Rightarrow>
                (let unusedRows = filter (\<lambda>r. r \<notin> usedRows) [0..<length D]
                 in case for_each (\<lambda>row s. case list_get objectIDs row of
                                              Inl e \<Rightarrow> Inl e
                                            | Inr objectID \<Rightarrow> age objectID s)
                           unusedRows t1 of
                      Inl e \<Rightarrow> Inl e
                    | Inr t2 \<Rightarrow>
                        (let unusedCols =
                               filter (\<lambda>c. c \<notin> usedCols) [0..<length inputCentroids]
                         in Inr (fold (\<lambda>col. register (inputCentroids ! col)) unusedCols t2)))))"

text \<open>A client's use of one tracker: a sequence of calls of its three methods.\<close>

datatype tracker_call = Register centroid | Deregister int | Update "centroid list"

fun call :: "tracker_call \<Rightarrow> CentroidTracker \<Rightarrow> py_error + CentroidTracker" where
  "call (Register c) t = Inr (register c t)"
| "call (Deregister k) t = deregister k t"
| "call (Update cs) t = update cs t"

section \<open>The counting line and the crossing test\<close>

text \<open>
  \<^verbatim>\<open>line_options\<close> is the dict of the configuration; \<^verbatim>\<open>position\<close> is a float. Products
  of a frame dimension with \<^verbatim>\<open>position\<close> are modelled by the exact product, and Python's
  \<^verbatim>\<open>int()\<close> of a float by truncation towards zero.
\<close>

record line_options =
  orientation :: string
  position :: real
  direction_mode :: string

definition py_int :: "real \<Rightarrow> int" where
  "py_int x = (if 0 \<le> x then \<lfloor>x\<rfloor> else \<lceil>x\<rceil>)"

text \<open>The end points \<^verbatim>\<open>pt1, pt2\<close> of the line in a frame of height \<open>H\<close> and width \<open>W\<close>.\<close>

definition line_points :: "line_options \<Rightarrow> int \<Rightarrow> int \<Rightarrow> centroid \<times> centroid" where
  "line_points lo H W =
     (if orientation lo = ''horizontal'' then
        (let line_coord = py_int (of_int H * position lo) in ((0, line_coord), (W, line_coord)))
      else if orientation lo = ''vertical'' then
        (let line_coord = py_int (of_int W * position lo) in ((line_coord, 0), (line_coord, H)))
      else if orientation lo = ''diagonal'' then
        (if direction_mode lo = ''diag1'' then
           (let offset = py_int (of_int (min W H) * position lo) in ((0, offset), (W, H - offset)))
         else
           (let offset = py_int (of_int (min W H) * position lo) in ((W, offset), (0, H - offset))))
      else ((0, py_int (of_int H / 2)), (W, py_int (of_int H / 2))))"

text \<open>\<^verbatim>\<open>d_prev\<close> and \<^verbatim>\<open>d_curr\<close>: the cross product of the point's offset from \<^verbatim>\<open>pt1\<close> with the
  line's direction, over the line's length (1 when the length is 0).\<close>

definition signed_distance :: "centroid \<Rightarrow> centroid \<Rightarrow> centroid \<Rightarrow> real" where
  "signed_distance pt1 pt2 p =
     (let vx = fst pt2 - fst pt1;
          vy = snd pt2 - snd pt1;
          norm = sqrt (of_int (vx * vx + vy * vy));
          norm = (if norm = 0 then 1 else norm)
      in of_int ((fst p - fst pt1) * vy - (snd p - snd pt1) * vx) / norm)"

text \<open>The value of \<^verbatim>\<open>crossed\<close> for an identity that is not yet counted.\<close>

definition crossed :: "line_options \<Rightarrow> centroid \<Rightarrow> centroid \<Rightarrow> centroid \<Rightarrow> centroid \<Rightarrow> bool" where
  "crossed lo pt1 pt2 prev centroid =
     (if orientation lo = ''horizontal'' then
        (snd prev > snd pt1 \<and> snd centroid \<le> snd pt1) \<or>
        (snd prev < snd pt1 \<and> snd centroid \<ge> snd pt1)
      else if orientation lo = ''vertical'' then
        (fst prev > fst pt1 \<and> fst centroid \<le> fst pt1) \<or>
        (fst prev < fst pt1 \<and> fst centroid \<ge> fst pt1)
      else if orientation lo = ''diagonal'' then
        signed_distance pt1 pt2 prev * signed_distance pt1 pt2 centroid < 0
      else False)"

text \<open>\<^verbatim>\<open>disp\<close>\<close>

definition displacement :: "line_options \<Rightarrow> centroid \<Rightarrow> centroid \<Rightarrow> int" where
  "displacement lo prev centroid =
     (if orientation lo = ''horizontal'' \<or> orientation lo = ''vertical'' then
        (if orientation lo = ''horizontal'' then \<bar>snd centroid - snd prev\<bar>
         else \<bar>fst centroid - fst prev\<bar>)
      else \<bar>(fst centroid + snd centroid) - (fst prev + snd prev)\<bar>)"

text \<open>
  The counters. The source keeps \<^verbatim>\<open>up_count, down_count\<close> or \<^verbatim>\<open>left_count, right_count\<close> or
  \<^verbatim>\<open>diag1_count, diag2_count\<close>, one pair according to the orientation; the model keeps the
  pair that exists as \<open>(dir1, dir2)\<close>, in this order. This is the block that increments
  one of them for a recorded crossing.
\<close>

definition count_crossing ::
  "line_options \<Rightarrow> centroid \<Rightarrow> centroid \<Rightarrow> centroid \<Rightarrow> centroid \<Rightarrow> int \<times> int \<Rightarrow> int \<times> int" where
  "count_crossing lo pt1 pt2 prev centroid counts =
     (case counts of (dir1, dir2) \<Rightarrow>
        if orientation lo = ''horizontal'' then
          (if snd prev > snd pt1 \<and> snd centroid \<le> snd pt1 then (dir1 + 1, dir2)
           else if snd prev < snd pt1 \<and> snd centroid \<ge> snd pt1 then (dir1, dir2 + 1)
           else (dir1, dir2))
        else if orientation lo = ''vertical'' then
          (if fst prev > fst pt1 \<and> fst centroid \<le> fst pt1 then (dir1 + 1, dir2)
           else if fst prev < fst pt1 \<and> fst centroid \<ge> fst pt1 then (dir1, dir2 + 1)
           else (dir1, dir2))
        else if orientation lo = ''diagonal'' then
          (if signed_distance pt1 pt2 prev > 0 then (dir1 + 1, dir2) else (dir1, dir2 + 1))
        else (dir1, dir2))"

text \<open>The body of \<^verbatim>\<open>for (objectID, centroid) in objects.items()\<close> in the directional mode,
  the drawing left out. Its state is the tracker and the two counters.\<close>

definition evaluate_object ::
  "line_options \<Rightarrow> string \<Rightarrow> int \<Rightarrow> centroid \<Rightarrow> centroid \<Rightarrow> int \<times> centroid
     \<Rightarrow> CentroidTracker \<times> int \<times> int \<Rightarrow> py_error + (CentroidTracker \<times> int \<times> int)" where
  "evaluate_object lo counting_algorithm min_disp pt1 pt2 item s =
     (case item of (objectID, centroid) \<Rightarrow> case s of (ct, counts) \<Rightarrow>
        (let prev = (case map_of (previousCentroids ct) objectID of
                       None \<Rightarrow> centroid | Some p \<Rightarrow> p)
         in case dict_get (counted ct) objectID of
              Inl e \<Rightarrow> Inl e
            | Inr is_counted \<Rightarrow>
                if \<not> is_counted then
                  (if crossed lo pt1 pt2 prev centroid then
                     (if counting_algorithm = ''threshold'' \<and> displacement lo prev centroid < min_disp
                      then Inr (ct, counts)
                      else Inr (ct\<lparr> counted := AList.update objectID True (counted ct) \<rparr>,
                                count_crossing lo pt1 pt2 prev centroid counts))
                   else Inr (ct, counts))
                else Inr (ct, counts)))"

section \<open>The persistence gateway\<close>

text \<open>
  The table \<^verbatim>\<open>analytics\<close> has the primary key \<^verbatim>\<open>(stream_url, session_start)\<close>;
  \<^verbatim>\<open>upsert_session\<close> inserts a row or, on a conflict of the key, overwrites the other
  columns. The table is an association list from keys to the remaining columns. Time
  stamps are clock readings in seconds; the text that \<^verbatim>\<open>strftime\<close> makes of a reading is
  represented by the reading.
\<close>

record session_row =
  row_object_type :: string
  row_direction1 :: int
  row_direction2 :: int
  row_total :: int
  row_session_end :: int

type_synonym database = "((string \<times> int) \<times> session_row) list"

definition upsert_session ::
  "string \<Rightarrow> string \<Rightarrow> int \<Rightarrow> int \<Rightarrow> int \<Rightarrow> int \<Rightarrow> int \<Rightarrow> database \<Rightarrow> database" where
  "upsert_session rtsp_url object_type direction1 direction2 total' session_start session_end db =
     AList.update (rtsp_url, session_start)
       \<lparr> row_object_type = object_type, row_direction1 = direction1,
         row_direction2 = direction2, row_total = total', row_session_end = session_end \<rparr> db"

section \<open>The stream\<close>

text \<open>
  What the outside world hands to one iteration of \<^verbatim>\<open>for frame in container.decode(video=0)\<close>:
  the frame's shape, the centroids of the detections of the configured class
  (\<^verbatim>\<open>current_centroids\<close>), the reading of \<^verbatim>\<open>time.time()\<close> after the frame is shown, the reading
  of \<^verbatim>\<open>datetime.datetime.now()\<close> taken if a record is due, and whether the key read by
  \<^verbatim>\<open>cv2.waitKey\<close> is q. An item of the stream is a frame or an exception raised while
  decoding.
\<close>

record frame =
  frame_height :: int
  frame_width :: int
  current_centroids :: "centroid list"
  now :: int
  record_end :: int
  quit_key :: bool

datatype stream_item = Frame frame | DecodeError

text \<open>One attempt to read a stream: whether \<^verbatim>\<open>av.open\<close> succeeds, the readings of
  \<^verbatim>\<open>time.time()\<close> and \<^verbatim>\<open>datetime.datetime.now()\<close> taken before the loop, and the items.\<close>

record video_stream =
  stream_opens :: bool
  loop_time0 :: int
  loop_clock0 :: int
  stream_items :: "stream_item list"

text \<open>A \<^verbatim>\<open>for\<close> loop whose body may raise, keeping the state reached when it does.\<close>

fun for_each_keep ::
  "('a \<Rightarrow> 's \<Rightarrow> py_error + 's) \<Rightarrow> 'a list \<Rightarrow> 's \<Rightarrow> py_error option \<times> 's" where
  "for_each_keep body [] s = (None, s)"
| "for_each_keep body (x # xs) s =
     (case body x s of Inl e \<Rightarrow> (Some e, s) | Inr s' \<Rightarrow> for_each_keep body xs s')"

section \<open>Directional counting\<close>

record directional_state =
  tracker :: CentroidTracker
  dir_counts :: "int \<times> int"
  last_record_time :: int
  store :: database

definition known_orientation :: "line_options \<Rightarrow> bool" where
  "known_orientation lo \<longleftrightarrow>
     orientation lo = ''horizontal'' \<or> orientation lo = ''vertical'' \<or>
     orientation lo = ''diagonal''"

text \<open>\<^verbatim>\<open>current_total\<close>\<close>

definition current_total :: "line_options \<Rightarrow> int \<times> int \<Rightarrow> int" where
  "current_total lo counts = (if known_orientation lo then fst counts + snd counts else 0)"

text \<open>The body of the frame loop of \<^verbatim>\<open>run_stream_directional\<close> up to the test of the key:
  the line, the tracker update, the evaluation of every identity, and the record that is
  written when \<^verbatim>\<open>record_interval\<close> seconds have passed since the last one. An exception
  leaves the state as it is at that point.\<close>

definition directional_frame ::
  "string \<Rightarrow> string \<Rightarrow> line_options \<Rightarrow> string \<Rightarrow> int \<Rightarrow> int \<Rightarrow> int \<Rightarrow> frame
     \<Rightarrow> directional_state \<Rightarrow> py_error option \<times> directional_state" where
  "directional_frame rtsp_url object_type lo counting_algorithm min_disp record_interval
       session_start f s =
     (case line_points lo (frame_height f) (frame_width f) of (pt1, pt2) \<Rightarrow>
     (case update (current_centroids f) (tracker s) of
        Inl e \<Rightarrow> (Some e, s)
      | Inr ct1 \<Rightarrow>
          (case for_each_keep (evaluate_object lo counting_algorithm min_disp pt1 pt2)
                  (objects ct1) (ct1, dir_counts s) of
             (Some e, (ct2, counts2)) \<Rightarrow> (Some e, s\<lparr> tracker := ct2, dir_counts := counts2 \<rparr>)
           | (None, (ct2, counts2)) \<Rightarrow>
               (let s1 = s\<lparr> tracker := ct2, dir_counts := counts2 \<rparr>
                in if now f - last_record_time s \<ge> record_interval then
                     (None,
                      s1\<lparr> store :=
                            upsert_session rtsp_url object_type
                              (if known_orientation lo then fst counts2 else 0)
                              (if known_orientation lo then snd counts2 else 0)
                              (current_total lo counts2) session_start (record_end f) (store s),
                          last_record_time := now f \<rparr>)
                   else (None, s1)))))"

text \<open>
  The loop \<^verbatim>\<open>while True: try: for frame in ...: ... except Exception: break\<close>. The value is
  what the function returns, if it returns, and the table. A key q returns the counters;
  an exception breaks the loop, after which the function returns \<^verbatim>\<open>(0,0), 0\<close>. When the
  items end without either, the \<^verbatim>\<open>while True\<close> asks the container again and the function has
  not returned: \<open>None\<close>.
\<close>

fun directional_loop ::
  "string \<Rightarrow> string \<Rightarrow> line_options \<Rightarrow> string \<Rightarrow> int \<Rightarrow> int \<Rightarrow> int \<Rightarrow> stream_item list
     \<Rightarrow> directional_state \<Rightarrow> ((int \<times> int) \<times> int) option \<times> database" where
  "directional_loop rtsp_url object_type lo counting_algorithm min_disp record_interval
       session_start [] s = (None, store s)"
| "directional_loop rtsp_url object_type lo counting_algorithm min_disp record_interval
       session_start (DecodeError # rest) s = (Some ((0, 0), 0), store s)"
| "directional_loop rtsp_url object_type lo counting_algorithm min_disp record_interval
       session_start (Frame f # rest) s =
     (case directional_frame rtsp_url object_type lo counting_algorithm min_disp record_interval
             session_start f s of
        (Some e, s') \<Rightarrow> (Some ((0, 0), 0), store s')
      | (None, s') \<Rightarrow>
          if quit_key f then
            (Some (if known_orientation lo then (dir_counts s', current_total lo (dir_counts s'))
                   else ((0, 0), current_total lo (dir_counts s'))),
             store s')
          else directional_loop rtsp_url object_type lo counting_algorithm min_disp
                 record_interval session_start rest s')"

text \<open>\<^verbatim>\<open>run_stream_directional\<close>; \<^verbatim>\<open>model\<close> and \<^verbatim>\<open>resolution\<close> only serve detection and
  display.\<close>

definition run_stream_directional ::
  "string \<Rightarrow> string \<Rightarrow> line_options \<Rightarrow> string \<Rightarrow> int \<Rightarrow> int \<Rightarrow> video_stream \<Rightarrow> database
     \<Rightarrow> ((int \<times> int) \<times> int) option \<times> database" where
  "run_stream_directional rtsp_url object_type lo counting_algorithm min_disp record_interval
       vs db =
     (if \<not> stream_opens vs then (Some ((0, 0), 0), db)
      else directional_loop rtsp_url object_type lo counting_algorithm min_disp record_interval
             (loop_clock0 vs) (stream_items vs)
             \<lparr> tracker = CentroidTracker_init 40, dir_counts = (0, 0),
               last_record_time = loop_time0 vs, store = db \<rparr>)"

section \<open>Unique counting\<close>

record unique_state =
  u_tracker :: CentroidTracker
  total_count :: int
  u_last_record_time :: int
  u_store :: database

text \<open>The body of \<^verbatim>\<open>for (objectID, centroid) in objects.items()\<close> in the unique mode.\<close>

definition count_unique ::
  "int \<times> centroid \<Rightarrow> CentroidTracker \<times> int \<Rightarrow> py_error + (CentroidTracker \<times> int)" where
  "count_unique item s =
     (case item of (objectID, centroid) \<Rightarrow> case s of (ct, n) \<Rightarrow>
        (case dict_get (counted ct) objectID of
           Inl e \<Rightarrow> Inl e
         | Inr is_counted \<Rightarrow>
             if \<not> is_counted then
               Inr (ct\<lparr> counted := AList.update objectID True (counted ct) \<rparr>, n + 1)
             else Inr (ct, n)))"

text \<open>The body of the frame loop of \<^verbatim>\<open>run_stream_unique\<close> up to the test of the key. The
  record is written under \<^verbatim>\<open>record_start\<close>, the time of the previous record.\<close>

definition unique_frame ::
  "string \<Rightarrow> string \<Rightarrow> int \<Rightarrow> frame \<Rightarrow> unique_state \<Rightarrow> py_error option \<times> unique_state" where
  "unique_frame rtsp_url object_type record_interval f s =
     (case update (current_centroids f) (u_tracker s) of
        Inl e \<Rightarrow> (Some e, s)
      | Inr ct1 \<Rightarrow>
          (case for_each_keep count_unique (objects ct1) (ct1, total_count s) of
             (Some e, (ct2, n2)) \<Rightarrow> (Some e, s\<lparr> u_tracker := ct2, total_count := n2 \<rparr>)
           | (None, (ct2, n2)) \<Rightarrow>
               (let s1 = s\<lparr> u_tracker := ct2, total_count := n2 \<rparr>
                in if now f - u_last_record_time s \<ge> record_interval then
                     (None,
                      s1\<lparr> u_store :=
                            upsert_session rtsp_url object_type 0 0 n2
                              (u_last_record_time s) (record_end f) (u_store s),
                          u_last_record_time := now f \<rparr>)
                   else (None, s1))))"

text \<open>The loop of \<^verbatim>\<open>run_stream_unique\<close>: a key q and an exception both return
  \<^verbatim>\<open>total_count\<close>.\<close>

fun unique_loop ::
  "string \<Rightarrow> string \<Rightarrow> int \<Rightarrow> stream_item list \<Rightarrow> unique_state \<Rightarrow> int option \<times> database" where
  "unique_loop rtsp_url object_type record_interval [] s = (None, u_store s)"
| "unique_loop rtsp_url object_type record_interval (DecodeError # rest) s =
     (Some (total_count s), u_store s)"
| "unique_loop rtsp_url object_type record_interval (Frame f # rest) s =
     (case unique_frame rtsp_url object_type record_interval f s of
        (Some e, s') \<Rightarrow> (Some (total_count s'), u_store s')
      | (None, s') \<Rightarrow>
          if quit_key f then (Some (total_count s'), u_store s')
          else unique_loop rtsp_url object_type record_interval rest s')"

definition run_stream_unique ::
  "string \<Rightarrow> string \<Rightarrow> int \<Rightarrow> video_stream \<Rightarrow> database \<Rightarrow> int option \<times> database" where
  "run_stream_unique rtsp_url object_type record_interval vs db =
     (if \<not> stream_opens vs then (Some 0, db)
      else unique_loop rtsp_url object_type record_interval (stream_items vs)
             \<lparr> u_tracker = CentroidTracker_init 40, total_count = 0,
               u_last_record_time = loop_time0 vs, u_store = db \<rparr>)"

section \<open>A session\<close>

text \<open>The entries of \<^verbatim>\<open>config\<close> that the analysis reads.\<close>

record config =
  cfg_rtsp_url :: string
  cfg_object_type :: string
  cfg_analysis_mode :: string
  cfg_line_options :: line_options
  cfg_counting_algorithm :: string
  cfg_min_displacement :: int
  cfg_record_interval :: int

text \<open>One session as the world gives it: the reading of \<^verbatim>\<open>datetime.datetime.now()\<close> that
  \<^verbatim>\<open>launch_analysis_and_flask\<close> takes as \<^verbatim>\<open>session_start\<close>, the stream, and the reading it
  takes as \<^verbatim>\<open>session_end\<close>.\<close>

record session_run =
  launch_start :: int
  video :: video_stream
  launch_end :: int

text \<open>\<^verbatim>\<open>launch_analysis_and_flask\<close>, the dashboard process left out: the table after the
  final upsert, or \<open>None\<close> when the stream function has not returned.\<close>

definition launch_analysis_and_flask :: "config \<Rightarrow> session_run \<Rightarrow> database \<Rightarrow> database option" where
  "launch_analysis_and_flask cfg run db =
     (if cfg_analysis_mode cfg = ''directional'' then
        (case run_stream_directional (cfg_rtsp_url cfg) (cfg_object_type cfg)
                (cfg_line_options cfg) (cfg_counting_algorithm cfg) (cfg_min_displacement cfg)
                (cfg_record_interval cfg) (video run) db of
           (None, db') \<Rightarrow> None
         | (Some ret, db') \<Rightarrow>
             (let total' = (if known_orientation (cfg_line_options cfg) then snd ret else 0);
                  straight = (orientation (cfg_line_options cfg) = ''horizontal'' \<or>
                              orientation (cfg_line_options cfg) = ''vertical'')
              in Some (upsert_session (cfg_rtsp_url cfg) (cfg_object_type cfg)
                         (if straight then fst (fst ret) else 0)
                         (if straight then snd (fst ret) else 0)
                         total' (launch_start run) (launch_end run) db')))
      else
        (case run_stream_unique (cfg_rtsp_url cfg) (cfg_object_type cfg)
                (cfg_record_interval cfg) (video run) db of
           (None, db') \<Rightarrow> None
         | (Some total', db') \<Rightarrow>
             Some (upsert_session (cfg_rtsp_url cfg) (cfg_object_type cfg) 0 0 total'
                     (launch_start run) (launch_end run) db')))"

section \<open>The specification's wording, for comparison\<close>


text \<open>The specification's vocabulary for the diagonal: the difference of two points, the 2D
  cross product and the length of a vector.\<close>

definition minus2 :: "int \<times> int \<Rightarrow> int \<times> int \<Rightarrow> int \<times> int" where
  "minus2 a b = (fst a - fst b, snd a - snd b)"

definition cross2 :: "int \<times> int \<Rightarrow> int \<times> int \<Rightarrow> int" where
  "cross2 a b = fst a * snd b - snd a * fst b"

definition norm2 :: "int \<times> int \<Rightarrow> real" where
  "norm2 v = sqrt (of_int (fst v * fst v + snd v * snd v))"

section \<open>Example inputs\<close>

text \<open>Example inputs: a tracker that holds identity 0 alone, not yet counted, with the given
  previous and current centroids, and three configured lines.\<close>

definition one_object :: "centroid \<Rightarrow> centroid \<Rightarrow> CentroidTracker" where
  "one_object prev cur =
     \<lparr> nextObjectID = 1, objects = [(0, cur)], disappeared = [(0, 0)],
       previousCentroids = [(0, prev)], counted = [(0, False)], maxDisappeared = 40 \<rparr>"

definition horizontal_line :: "real \<Rightarrow> line_options" where
  "horizontal_line pos =
     \<lparr> orientation = ''horizontal'', position = pos, direction_mode = ''vertical'' \<rparr>"


definition diagonal_line :: "real \<Rightarrow> line_options" where
  "diagonal_line pos =
     \<lparr> orientation = ''diagonal'', position = pos, direction_mode = ''diag1'' \<rparr>"

section \<open>Runs of frames\<close>

text \<open>
  A run of the frame loop over a list of frames, without the test of the key: the state
  after the last frame, or the exception and the state at which it was raised.
\<close>

fun run_frames ::
  "(frame \<Rightarrow> 's \<Rightarrow> py_error option \<times> 's) \<Rightarrow> frame list \<Rightarrow> 's \<Rightarrow> py_error option \<times> 's" where
  "run_frames step [] s = (None, s)"
| "run_frames step (f # fs) s =
     (case step f s of (Some e, s') \<Rightarrow> (Some e, s') | (None, s') \<Rightarrow> run_frames step fs s')"

text \<open>The identities whose \<open>counted\<close> flag is true in the later tracker and was not true in
  the earlier one; and those identities frame by frame along a run.\<close>

definition newly_counted :: "CentroidTracker \<Rightarrow> CentroidTracker \<Rightarrow> int list" where
  "newly_counted t t' =
     filter (\<lambda>k. map_of (counted t') k = Some True \<and> map_of (counted t) k \<noteq> Some True)
       (dict_keys (counted t'))"

fun counted_in_frames ::
  "(frame \<Rightarrow> 's \<Rightarrow> py_error option \<times> 's) \<Rightarrow> ('s \<Rightarrow> CentroidTracker) \<Rightarrow> frame list \<Rightarrow> 's
     \<Rightarrow> int list" where
  "counted_in_frames step trk [] s = []"
| "counted_in_frames step trk (f # fs) s =
     (case step f s of
        (Some e, s') \<Rightarrow> newly_counted (trk s) (trk s')
      | (None, s') \<Rightarrow> newly_counted (trk s) (trk s') @ counted_in_frames step trk fs s')"

text \<open>An identity is settled when it has been assigned and is not waiting to be counted: it
  is counted, or it is deregistered.\<close>

definition settled :: "CentroidTracker \<Rightarrow> int \<Rightarrow> bool" where
  "settled t k \<longleftrightarrow> k < nextObjectID t \<and> map_of (counted t) k \<noteq> Some False"

text \<open>Two trackers differ at most in their \<open>counted\<close> flags.\<close>

definition same_but_counted :: "CentroidTracker \<Rightarrow> CentroidTracker \<Rightarrow> bool" where
  "same_but_counted t t' \<longleftrightarrow>
     nextObjectID t' = nextObjectID t \<and> objects t' = objects t \<and>
     disappeared t' = disappeared t \<and> previousCentroids t' = previousCentroids t \<and>
     maxDisappeared t' = maxDisappeared t"

text \<open>Example sessions: a camera whose frames are 200 by 640, a line at half height,
  records every 60 seconds.\<close>

definition cam_config :: "string \<Rightarrow> config" where
  "cam_config mode =
     \<lparr> cfg_rtsp_url = ''rtsp://cam'', cfg_object_type = ''car'', cfg_analysis_mode = mode,
       cfg_line_options = horizontal_line (1 / 2), cfg_counting_algorithm = ''standard'',
       cfg_min_displacement = 10, cfg_record_interval = 60 \<rparr>"

definition cam_view :: "centroid list \<Rightarrow> int \<Rightarrow> bool \<Rightarrow> frame" where
  "cam_view cs t q =
     \<lparr> frame_height = 200, frame_width = 640, current_centroids = cs, now = t,
       record_end = t, quit_key = q \<rparr>"

definition cam_frame :: "centroid list \<Rightarrow> int \<Rightarrow> bool \<Rightarrow> stream_item" where
  "cam_frame cs t q = Frame (cam_view cs t q)"

definition cam_run :: "int \<Rightarrow> int \<Rightarrow> stream_item list \<Rightarrow> int \<Rightarrow> session_run" where
  "cam_run t_launch t_loop its t_end =
     \<lparr> launch_start = t_launch,
       video = \<lparr> stream_opens = True, loop_time0 = t_loop, loop_clock0 = t_loop, stream_items = its \<rparr>,
       launch_end = t_end \<rparr>"

section \<open>What one update does to one identity\<close>

text \<open>The row and column choices of the matching loop alone: the pairs of
  \<^verbatim>\<open>zip(rows, cols)\<close> that pass the test \<^verbatim>\<open>row in usedRows or col in usedCols\<close>, in the
  order in which the loop accepts them.\<close>

fun greedy :: "(nat \<times> nat) list \<Rightarrow> nat set \<Rightarrow> nat set \<Rightarrow> (nat \<times> nat) list" where
  "greedy [] usedRows usedCols = []"
| "greedy ((row, col) # rest) usedRows usedCols =
     (if row \<in> usedRows \<or> col \<in> usedCols then greedy rest usedRows usedCols
      else (row, col) # greedy rest (insert row usedRows) (insert col usedCols))"

text \<open>The distance matrix of an update and the pairs (row, column) it matches.\<close>

definition distances :: "CentroidTracker \<Rightarrow> centroid list \<Rightarrow> int list list" where
  "distances t inputCentroids = cdist (map snd (objects t)) inputCentroids"

definition matching :: "CentroidTracker \<Rightarrow> centroid list \<Rightarrow> (nat \<times> nat) list" where
  "matching t inputCentroids =
     (let D = distances t inputCentroids;
          rows = argsort (map min_list D);
          cols = map (\<lambda>r. argmin (D ! r)) rows
      in greedy (zip rows cols) {} {})"

text \<open>A live identity is unmatched by an update when the input is empty or no accepted pair
  has its row.\<close>

definition unmatched :: "CentroidTracker \<Rightarrow> centroid list \<Rightarrow> int \<Rightarrow> bool" where
  "unmatched t inputCentroids k \<longleftrightarrow>
     k \<in> set (dict_keys (objects t)) \<and>
     (inputCentroids = [] \<or>
      k \<notin> set (map (\<lambda>(r, c). dict_keys (objects t) ! r) (matching t inputCentroids)))"

text \<open>An identity is unmatched in every frame of a sequence of updates.\<close>

fun unmatched_throughout :: "int \<Rightarrow> centroid list list \<Rightarrow> CentroidTracker \<Rightarrow> bool" where
  "unmatched_throughout k [] t = True"
| "unmatched_throughout k (f # fs) t =
     (unmatched t f k \<and>
      (case update f t of Inl e \<Rightarrow> False | Inr t' \<Rightarrow> unmatched_throughout k fs t'))"

text \<open>All that the tracker holds about one identity, and what ageing does to it.\<close>

type_synonym entry = "centroid option \<times> int option \<times> centroid option \<times> bool option"

definition entry :: "CentroidTracker \<Rightarrow> int \<Rightarrow> entry" where
  "entry t k =
     (map_of (objects t) k, map_of (disappeared t) k, map_of (previousCentroids t) k,
      map_of (counted t) k)"

fun aged :: "int \<Rightarrow> entry \<Rightarrow> entry" where
  "aged m (obj, Some n, prev, cnt) =
     (if n + 1 > m then (None, None, None, None) else (obj, Some (n + 1), prev, cnt))"
| "aged m (obj, None, prev, cnt) = (obj, None, prev, cnt)"

text \<open>The entry of a matched identity, given the tracker before the update and the matched
  detection; and the entry that \<open>register\<close> creates.\<close>

definition matched_entry :: "CentroidTracker \<Rightarrow> centroid \<Rightarrow> int \<Rightarrow> entry" where
  "matched_entry t c k = (Some c, Some 0, map_of (objects t) k, map_of (counted t) k)"

definition new_entry :: "centroid \<Rightarrow> entry" where
  "new_entry c = (Some c, Some 0, Some c, Some False)"



text \<open>A tracker as \<^verbatim>\<open>CentroidTracker(maxDisappeared=40)\<close> holds it after a first frame with
  the detections (0, 0) and (10, 0).\<close>

definition two_objects :: CentroidTracker where
  "two_objects =
     \<lparr> nextObjectID = 2, objects = [(0, (0, 0)), (1, (10, 0))], disappeared = [(0, 0), (1, 0)],
       previousCentroids = [(0, (0, 0)), (1, (10, 0))], counted = [(0, False), (1, False)],
       maxDisappeared = 40 \<rparr>"

section \<open>Invariants of the tracker\<close>

text \<open>The four dictionaries hold the same keys.\<close>

definition same_keys :: "CentroidTracker \<Rightarrow> bool" where
  "same_keys t \<longleftrightarrow>
     set (dict_keys (disappeared t)) = set (dict_keys (objects t)) \<and>
     set (dict_keys (previousCentroids t)) = set (dict_keys (objects t)) \<and>
     set (dict_keys (counted t)) = set (dict_keys (objects t))"

text \<open>The representation invariant: the dictionaries list the same keys in the same order,
  without repetition, and every key is a non-negative integer below \<open>nextObjectID\<close>.\<close>

definition tracker_inv :: "CentroidTracker \<Rightarrow> bool" where
  "tracker_inv t \<longleftrightarrow>
     distinct (dict_keys (objects t)) \<and>
     dict_keys (disappeared t) = dict_keys (objects t) \<and>
     dict_keys (previousCentroids t) = dict_keys (objects t) \<and>
     dict_keys (counted t) = dict_keys (objects t) \<and>
     0 \<le> nextObjectID t \<and>
     (\<forall>k \<in> set (dict_keys (objects t)). 0 \<le> k \<and> k < nextObjectID t)"

text \<open>How a later tracker state relates to an earlier one: the identity counter has not gone
  down, and an identity of the later state either was there before, with the same
  \<open>counted\<close> flag, or is a new one, not yet counted.\<close>

definition evolves :: "CentroidTracker \<Rightarrow> CentroidTracker \<Rightarrow> bool" where
  "evolves t t' \<longleftrightarrow>
     nextObjectID t \<le> nextObjectID t' \<and> maxDisappeared t' = maxDisappeared t \<and>
     (\<forall>k \<in> set (dict_keys (objects t')).
        (k \<in> set (dict_keys (objects t)) \<and> map_of (counted t') k = map_of (counted t) k) \<or>
        (nextObjectID t \<le> k \<and> map_of (counted t') k = Some False))"

section \<open>Properties of the dictionary operations\<close>

lemma dict_keys_update:
  "dict_keys (AList.update k v d) = (if k \<in> set (dict_keys d) then dict_keys d else dict_keys d @ [k])"
  by (simp add: dict_keys_def update_keys)

lemma dict_keys_delete: "dict_keys (AList.delete k d) = removeAll k (dict_keys d)"
  by (simp add: dict_keys_def delete_keys)

lemma delete_absent: "k \<notin> set (dict_keys d) \<Longrightarrow> AList.delete k d = d"
  by (induction d) (auto simp: dict_keys_def)

lemma dict_get_Inr: "dict_get d k = Inr v \<longleftrightarrow> map_of d k = Some v"
  by (simp add: dict_get_def split: option.splits)

lemma map_of_keys: "map_of d k \<noteq> None \<longleftrightarrow> k \<in> set (dict_keys d)"
  by (simp add: dict_keys_def map_of_eq_None_iff)

lemma dict_get_keys: "k \<in> set (dict_keys d) \<Longrightarrow> \<exists>v. dict_get d k = Inr v"
  using map_of_keys [of d k] by (cases "map_of d k") (auto simp: dict_get_def)

section \<open>The tracker keeps its invariant\<close>

lemma evolves_refl: "evolves t t"
  by (auto simp: evolves_def)

lemma evolves_trans:
  assumes "evolves a b" "evolves b c" "tracker_inv b"
  shows "evolves a c"
  using assms unfolding evolves_def tracker_inv_def
  by (smt (verit) map_of_keys)

lemma inv_init: "tracker_inv (CentroidTracker_init m)"
  by (simp add: tracker_inv_def CentroidTracker_init_def dict_keys_def)

lemma inv_register: "tracker_inv t \<Longrightarrow> tracker_inv (register c t)"
  by (auto simp: tracker_inv_def register_def dict_keys_update)

lemma evolves_register: "tracker_inv t \<Longrightarrow> evolves t (register c t)"
  by (auto simp: evolves_def tracker_inv_def register_def dict_keys_update update_conv' split: if_splits)

lemma deregister_eq:
  assumes "tracker_inv t"
  shows "deregister k t =
     Inr (t\<lparr> objects := AList.delete k (objects t), disappeared := AList.delete k (disappeared t),
             previousCentroids := AList.delete k (previousCentroids t),
             counted := AList.delete k (counted t) \<rparr>)"
proof (cases "k \<in> set (dict_keys (objects t))")
  case True
  with assms show ?thesis by (simp add: deregister_def tracker_inv_def dict_del_def)
next
  case False
  with assms have "AList.delete k (objects t) = objects t" "AList.delete k (disappeared t) = disappeared t"
    "AList.delete k (previousCentroids t) = previousCentroids t" "AList.delete k (counted t) = counted t"
    by (simp_all add: tracker_inv_def delete_absent)
  with False show ?thesis by (simp add: deregister_def)
qed

lemma inv_deregister: "tracker_inv t \<Longrightarrow> deregister k t = Inr t' \<Longrightarrow> tracker_inv t'"
  by (auto simp: deregister_eq tracker_inv_def dict_keys_delete distinct_removeAll)

lemma evolves_deregister: "tracker_inv t \<Longrightarrow> deregister k t = Inr t' \<Longrightarrow> evolves t t'"
  by (auto simp: deregister_eq evolves_def dict_keys_delete delete_conv')

lemma age_eq:
  assumes "tracker_inv t" "map_of (disappeared t) k = Some n"
  shows "age k t =
     Inr (if n + 1 > maxDisappeared t
          then t\<lparr> objects := AList.delete k (objects t), disappeared := AList.delete k (disappeared t),
                  previousCentroids := AList.delete k (previousCentroids t),
                  counted := AList.delete k (counted t) \<rparr>
          else t\<lparr> disappeared := AList.update k (n + 1) (disappeared t) \<rparr>)"
proof -
  let ?t' = "t\<lparr> disappeared := AList.update k (n + 1) (disappeared t) \<rparr>"
  from assms(2) have k: "k \<in> set (dict_keys (disappeared t))"
    using map_of_keys [of "disappeared t" k] by simp
  with assms(1) have inv: "tracker_inv ?t'"
    by (simp add: tracker_inv_def dict_keys_update)
  have del: "AList.delete k (AList.update k (n + 1) (disappeared t)) = AList.delete k (disappeared t)"
    by (simp add: delete_update_same)
  from assms(2) have "dict_get (disappeared t) k = Inr n" by (simp add: dict_get_Inr)
  then show ?thesis
    using deregister_eq [OF inv, of k] del by (simp add: age_def Let_def)
qed

lemma age_ok:
  assumes "tracker_inv t" "k \<in> set (dict_keys (objects t))"
  shows "\<exists>t'. age k t = Inr t' \<and> tracker_inv t' \<and> evolves t t' \<and>
           nextObjectID t' = nextObjectID t \<and>
           set (dict_keys (objects t)) - {k} \<subseteq> set (dict_keys (objects t')) \<and>
           set (dict_keys (objects t')) \<subseteq> set (dict_keys (objects t))"
proof -
  from assms have "k \<in> set (dict_keys (disappeared t))" by (simp add: tracker_inv_def)
  then obtain n where n: "map_of (disappeared t) k = Some n"
    using map_of_keys [of "disappeared t" k] by auto
  show ?thesis
    using assms unfolding age_eq [OF assms(1) n]
    by (auto simp: tracker_inv_def evolves_def dict_keys_update dict_keys_delete delete_conv'
          distinct_removeAll)
qed

lemma for_each_age_ok:
  assumes "tracker_inv t" "set ks \<subseteq> set (dict_keys (objects t))" "distinct ks"
  shows "\<exists>t'. for_each age ks t = Inr t' \<and> tracker_inv t' \<and> evolves t t' \<and>
           nextObjectID t' = nextObjectID t \<and>
           set (dict_keys (objects t')) \<subseteq> set (dict_keys (objects t))"
  using assms
proof (induction ks arbitrary: t)
  case Nil
  then show ?case by (simp add: evolves_refl)
next
  case (Cons k ks)
  from Cons.prems obtain t1 where t1: "age k t = Inr t1" "tracker_inv t1" "evolves t t1"
    "set (dict_keys (objects t)) - {k} \<subseteq> set (dict_keys (objects t1))"
    "set (dict_keys (objects t1)) \<subseteq> set (dict_keys (objects t))"
    "nextObjectID t1 = nextObjectID t"
    using age_ok [of t k] by auto
  from Cons.prems t1(4) have "set ks \<subseteq> set (dict_keys (objects t1))" by auto
  with Cons.IH [OF t1(2)] Cons.prems obtain t' where t': "for_each age ks t1 = Inr t'"
    "tracker_inv t'" "evolves t1 t'" "set (dict_keys (objects t')) \<subseteq> set (dict_keys (objects t1))"
    "nextObjectID t' = nextObjectID t1"
    by auto
  from t1 t' show ?case by (auto intro: evolves_trans)
qed

lemma match_rows_ok:
  assumes "tracker_inv t" "set objectIDs \<subseteq> set (dict_keys (objects t))"
    "\<forall>(r, c) \<in> set rcs. r < length objectIDs \<and> c < length inputCentroids"
  shows "\<exists>t' uR uC. match_rows objectIDs inputCentroids rcs (t, usedRows, usedCols) = Inr (t', uR, uC) \<and>
           tracker_inv t' \<and> evolves t t' \<and> dict_keys (objects t') = dict_keys (objects t) \<and>
           nextObjectID t' = nextObjectID t"
  using assms
proof (induction rcs arbitrary: t usedRows usedCols)
  case Nil
  then show ?case by (simp add: evolves_refl)
next
  case (Cons rc rcs)
  obtain row col where rc: "rc = (row, col)" by (cases rc)
  show ?case
  proof (cases "row \<in> usedRows \<or> col \<in> usedCols")
    case True
    with Cons rc show ?thesis by simp
  next
    case False
    from Cons.prems rc have r: "row < length objectIDs" and c: "col < length inputCentroids" by auto
    let ?k = "objectIDs ! row"
    from r Cons.prems have k: "?k \<in> set (dict_keys (objects t))" by auto
    then obtain old where old: "dict_get (objects t) ?k = Inr old"
      using dict_get_keys by blast
    let ?t1 = "t\<lparr> previousCentroids := AList.update ?k old (previousCentroids t),
                 objects := AList.update ?k (inputCentroids ! col) (objects t),
                 disappeared := AList.update ?k 0 (disappeared t) \<rparr>"
    from Cons.prems(1) k have inv1: "tracker_inv ?t1"
      by (simp add: tracker_inv_def dict_keys_update)
    from k have keys1: "dict_keys (objects ?t1) = dict_keys (objects t)"
      by (simp add: dict_keys_update)
    have ev1: "evolves t ?t1"
      using k by (simp add: evolves_def dict_keys_update)
    from Cons.IH [OF inv1, of "insert row usedRows" "insert col usedCols"] Cons.prems keys1
    obtain t' uR uC where
      "match_rows objectIDs inputCentroids rcs (?t1, insert row usedRows, insert col usedCols) = Inr (t', uR, uC)"
      "tracker_inv t'" "evolves ?t1 t'" "dict_keys (objects t') = dict_keys (objects ?t1)"
      "nextObjectID t' = nextObjectID ?t1"
      by auto
    with False rc r c old keys1 ev1 inv1 show ?thesis
      by (auto simp: list_get_def intro: evolves_trans)
  qed
qed

lemma for_each_rows:
  "\<forall>r \<in> set rows. r < length objectIDs \<Longrightarrow>
   for_each (\<lambda>row s. case list_get objectIDs row of Inl e \<Rightarrow> Inl e | Inr objectID \<Rightarrow> age objectID s) rows t
     = for_each age (map (\<lambda>r. objectIDs ! r) rows) t"
  by (induction rows arbitrary: t) (auto simp: list_get_def split: sum.splits)

lemma fold_register_ok:
  "tracker_inv t \<Longrightarrow> tracker_inv (fold register cs t) \<and> evolves t (fold register cs t)"
proof (induction cs arbitrary: t)
  case Nil
  then show ?case by (simp add: evolves_refl)
next
  case (Cons c cs)
  from Cons.prems have "tracker_inv (register c t)" "evolves t (register c t)"
    by (simp_all add: inv_register evolves_register)
  with Cons.IH [of "register c t"] show ?case
    by (auto intro: evolves_trans)
qed

lemma fold_register_cols:
  "fold (\<lambda>col. register (cs ! col)) cols t = fold register (map (\<lambda>c. cs ! c) cols) t"
  by (simp add: fold_map comp_def)

lemma takeWhile_stops: "\<exists>x \<in> set xs. \<not> P x \<Longrightarrow> length (takeWhile P xs) < length xs"
  by (induction xs) auto

lemma min_list_in: "(xs :: int list) \<noteq> [] \<Longrightarrow> min_list xs \<in> set xs"
  using Min_in [of "set xs"] by (simp add: min_list_Min)

lemma argmin_less: "xs \<noteq> [] \<Longrightarrow> argmin xs < length xs"
  unfolding argmin_def using min_list_in [of xs] by (intro takeWhile_stops) auto

lemma argsort_set: "set (argsort ks) = {0..<length ks}"
  by (simp add: argsort_def)

lemma update_ok:
  assumes "tracker_inv t"
  shows "\<exists>t'. update cs t = Inr t' \<and> tracker_inv t' \<and> evolves t t'"
proof (cases "length cs = 0")
  case True
  from assms have "set (dict_keys (disappeared t)) \<subseteq> set (dict_keys (objects t))"
    "distinct (dict_keys (disappeared t))"
    by (simp_all add: tracker_inv_def)
  from for_each_age_ok [OF assms this] True show ?thesis
    by (auto simp: update_def)
next
  case False
  show ?thesis
  proof (cases "length (objects t) = 0")
    case True
    with False fold_register_ok [OF assms, of cs] show ?thesis
      by (simp add: update_def)
  next
    case nonempty: False
    let ?ids = "dict_keys (objects t)"
    let ?D = "cdist (map snd (objects t)) cs"
    let ?rows = "argsort (map min_list ?D)"
    let ?cols = "map (\<lambda>r. argmin (?D ! r)) ?rows"
    from assms have idsub: "set ?ids \<subseteq> set (dict_keys (objects t))" by simp
    have lenD: "length ?D = length ?ids" by (simp add: cdist_def dict_keys_def)
    have rc: "\<forall>(r, c) \<in> set (zip ?rows ?cols). r < length ?ids \<and> c < length cs"
    proof (clarify)
      fix r c assume "(r, c) \<in> set (zip ?rows ?cols)"
      then have r: "r \<in> set ?rows" and c: "c = argmin (?D ! r)"
        by (auto simp: set_zip)
      from r have rl: "r < length ?ids" using lenD by (simp add: argsort_set)
      then have "?D ! r = map (sq_dist (map snd (objects t) ! r)) cs"
        by (simp add: cdist_def dict_keys_def)
      with False have "argmin (?D ! r) < length cs"
        using argmin_less [of "?D ! r"] by simp
      with rl c show "r < length ?ids \<and> c < length cs" by simp
    qed
    from match_rows_ok [OF assms idsub rc, of "{}" "{}"] obtain t1 uR uC where
      m: "match_rows ?ids cs (zip ?rows ?cols) (t, {}, {}) = Inr (t1, uR, uC)"
      and t1: "tracker_inv t1" "evolves t t1" "dict_keys (objects t1) = ?ids"
      by blast
    let ?unusedRows = "filter (\<lambda>r. r \<notin> uR) [0..<length ?D]"
    have ur: "\<forall>r \<in> set ?unusedRows. r < length ?ids" using lenD by simp
    from assms have dist: "distinct (map (\<lambda>r. ?ids ! r) ?unusedRows)"
      by (simp add: tracker_inv_def distinct_map inj_on_def lenD nth_eq_iff_index_eq)
    have sub: "set (map (\<lambda>r. ?ids ! r) ?unusedRows) \<subseteq> set (dict_keys (objects t1))"
      using t1(3) lenD by auto
    from for_each_age_ok [OF t1(1) sub dist] obtain t2 where
      t2: "for_each age (map (\<lambda>r. ?ids ! r) ?unusedRows) t1 = Inr t2" "tracker_inv t2" "evolves t1 t2"
      by blast
    let ?t' = "fold (\<lambda>col. register (cs ! col)) (filter (\<lambda>c. c \<notin> uC) [0..<length cs]) t2"
    from fold_register_ok [OF t2(2)] have t': "tracker_inv ?t'" "evolves t2 ?t'"
      by (simp_all add: fold_register_cols)
    have "update cs t = Inr ?t'"
      using False nonempty m t2(1) for_each_rows [OF ur]
      by (simp add: update_def Let_def)
    with t' t1 t2 show ?thesis
      by (auto intro: evolves_trans)
  qed
qed

section \<open>One update, identity by identity\<close>

lemma entry_eqI:
  "map_of (objects t') k = map_of (objects t) k \<Longrightarrow> map_of (disappeared t') k = map_of (disappeared t) k \<Longrightarrow>
   map_of (previousCentroids t') k = map_of (previousCentroids t) k \<Longrightarrow>
   map_of (counted t') k = map_of (counted t) k \<Longrightarrow> entry t' k = entry t k"
  by (simp add: entry_def)

lemma age_entry:
  assumes "tracker_inv t" "j \<in> set (dict_keys (objects t))" "age j t = Inr t'"
  shows "entry t' k = (if k = j then aged (maxDisappeared t) (entry t k) else entry t k)"
proof -
  from assms have "j \<in> set (dict_keys (disappeared t))" by (simp add: tracker_inv_def)
  then obtain n where n: "map_of (disappeared t) j = Some n"
    using map_of_keys [of "disappeared t" j] by auto
  from assms(3) show ?thesis
    unfolding age_eq [OF assms(1) n]
    by (auto simp: entry_def n delete_conv' update_conv')
qed

lemma map_of_None_keys: "map_of d k = None \<longleftrightarrow> k \<notin> set (dict_keys d)"
  by (simp add: dict_keys_def map_of_eq_None_iff)

lemma map_of_Some_keys: "k \<in> set (dict_keys d) \<Longrightarrow> \<exists>v. map_of d k = Some v"
  using map_of_None_keys [of d k] by auto

lemma entry_absent:
  "tracker_inv t \<Longrightarrow> k \<notin> set (dict_keys (objects t)) \<Longrightarrow> entry t k = (None, None, None, None)"
  by (simp add: entry_def tracker_inv_def map_of_None_keys)

lemma entry_present:
  "tracker_inv t \<Longrightarrow> k \<in> set (dict_keys (objects t)) \<Longrightarrow>
   \<exists>c n p b. entry t k = (Some c, Some n, Some p, Some b)"
  using map_of_Some_keys [of k "objects t"] map_of_Some_keys [of k "disappeared t"]
    map_of_Some_keys [of k "previousCentroids t"] map_of_Some_keys [of k "counted t"]
  by (auto simp add: entry_def tracker_inv_def)

lemma entry_keys:
  "tracker_inv t \<Longrightarrow> k \<in> set (dict_keys (objects t)) \<longleftrightarrow> fst (entry t k) \<noteq> None"
  using map_of_None_keys [of "objects t" k] by (simp add: entry_def)

lemma for_each_age_entry:
  assumes "tracker_inv t" "set ks \<subseteq> set (dict_keys (objects t))" "distinct ks"
    "for_each age ks t = Inr t'"
  shows "entry t' k = (if k \<in> set ks then aged (maxDisappeared t) (entry t k) else entry t k)"
  using assms
proof (induction ks arbitrary: t)
  case Nil
  then show ?case by simp
next
  case (Cons j ks)
  from Cons.prems obtain t1 where t1: "age j t = Inr t1" "tracker_inv t1" "evolves t t1"
    "set (dict_keys (objects t)) - {j} \<subseteq> set (dict_keys (objects t1))"
    using age_ok [of t j] by auto
  from Cons.prems t1 have sub: "set ks \<subseteq> set (dict_keys (objects t1))" by auto
  from Cons.prems t1(1) have run: "for_each age ks t1 = Inr t'" by simp
  from Cons.prems have d: "distinct ks" "j \<notin> set ks" by auto
  from t1(3) have m: "maxDisappeared t1 = maxDisappeared t" by (simp add: evolves_def)
  have e1: "entry t1 k = (if k = j then aged (maxDisappeared t) (entry t k) else entry t k)"
    using age_entry [OF Cons.prems(1) _ t1(1)] Cons.prems(2) by simp
  from Cons.IH [OF t1(2) sub d(1) run] m e1 d(2) show ?case by auto
qed

lemma greedy_sound:
  "(r, c) \<in> set (greedy rcs uR uC) \<Longrightarrow> (r, c) \<in> set rcs \<and> r \<notin> uR \<and> c \<notin> uC"
  by (induction rcs uR uC rule: greedy.induct) (auto split: if_splits)


lemma match_rows_entry:
  assumes "tracker_inv t" "distinct objectIDs" "set objectIDs \<subseteq> set (dict_keys (objects t))"
    "\<forall>(r, c) \<in> set rcs. r < length objectIDs \<and> c < length inputCentroids"
  shows "\<exists>t'. match_rows objectIDs inputCentroids rcs (t, uR, uC) =
             Inr (t', uR \<union> fst ` set (greedy rcs uR uC), uC \<union> snd ` set (greedy rcs uR uC)) \<and>
           tracker_inv t' \<and> dict_keys (objects t') = dict_keys (objects t) \<and>
           nextObjectID t' = nextObjectID t \<and> maxDisappeared t' = maxDisappeared t \<and>
           (\<forall>(r, c) \<in> set (greedy rcs uR uC).
              entry t' (objectIDs ! r) = matched_entry t (inputCentroids ! c) (objectIDs ! r)) \<and>
           (\<forall>k. k \<notin> (\<lambda>(r, c). objectIDs ! r) ` set (greedy rcs uR uC) \<longrightarrow> entry t' k = entry t k)"
  using assms
proof (induction rcs arbitrary: t uR uC)
  case Nil
  then show ?case by simp
next
  case (Cons rc rcs)
  obtain row col where rc: "rc = (row, col)" by (cases rc)
  show ?case
  proof (cases "row \<in> uR \<or> col \<in> uC")
    case True
    with Cons.IH [OF Cons.prems(1,2,3), of uR uC] Cons.prems(4) rc show ?thesis by simp
  next
    case False
    from Cons.prems rc have r: "row < length objectIDs" and c: "col < length inputCentroids" by auto
    let ?k = "objectIDs ! row"
    let ?G = "greedy rcs (insert row uR) (insert col uC)"
    from r Cons.prems have k: "?k \<in> set (dict_keys (objects t))" by auto
    then obtain old where old: "map_of (objects t) ?k = Some old"
      using map_of_Some_keys by blast
    let ?t1 = "t\<lparr> previousCentroids := AList.update ?k old (previousCentroids t),
                 objects := AList.update ?k (inputCentroids ! col) (objects t),
                 disappeared := AList.update ?k 0 (disappeared t) \<rparr>"
    from Cons.prems(1) k have inv1: "tracker_inv ?t1"
      by (simp add: tracker_inv_def dict_keys_update)
    from k have keys1: "dict_keys (objects ?t1) = dict_keys (objects t)"
      by (simp add: dict_keys_update)
    have e1: "entry ?t1 j = (if j = ?k then matched_entry t (inputCentroids ! col) ?k else entry t j)" for j
      by (simp add: entry_def matched_entry_def update_conv' old)
    from Cons.prems(3) keys1 have sub1: "set objectIDs \<subseteq> set (dict_keys (objects ?t1))" by simp
    from Cons.prems(4) have rng: "\<forall>(r, c) \<in> set rcs. r < length objectIDs \<and> c < length inputCentroids"
      by simp
    from Cons.IH [OF inv1 Cons.prems(2) sub1 rng, of "insert row uR" "insert col uC"]
    obtain t' where run: "match_rows objectIDs inputCentroids rcs (?t1, insert row uR, insert col uC) =
             Inr (t', insert row uR \<union> fst ` set ?G, insert col uC \<union> snd ` set ?G)"
      and t': "tracker_inv t'" "dict_keys (objects t') = dict_keys (objects ?t1)"
        "nextObjectID t' = nextObjectID ?t1" "maxDisappeared t' = maxDisappeared ?t1"
      and hit: "\<forall>(r, c) \<in> set ?G.
              entry t' (objectIDs ! r) = matched_entry ?t1 (inputCentroids ! c) (objectIDs ! r)"
      and miss: "\<forall>k. k \<notin> (\<lambda>(r, c). objectIDs ! r) ` set ?G \<longrightarrow> entry t' k = entry ?t1 k"
      by blast
    have other: "objectIDs ! r' \<noteq> ?k" if "(r', c') \<in> set ?G" for r' c'
    proof -
      from that have "(r', c') \<in> set rcs" "r' \<noteq> row"
        using greedy_sound [of r' c' rcs "insert row uR" "insert col uC"] by auto
      with rng r Cons.prems(2) show ?thesis
        by (auto simp: nth_eq_iff_index_eq)
    qed
    have g: "greedy (rc # rcs) uR uC = (row, col) # ?G" using False rc by simp
    have "match_rows objectIDs inputCentroids (rc # rcs) (t, uR, uC) =
            Inr (t', uR \<union> fst ` set (greedy (rc # rcs) uR uC), uC \<union> snd ` set (greedy (rc # rcs) uR uC))"
      using False rc r c old run by (simp add: g list_get_def dict_get_def)
    moreover have "\<forall>(r', c') \<in> set (greedy (rc # rcs) uR uC).
              entry t' (objectIDs ! r') = matched_entry t (inputCentroids ! c') (objectIDs ! r')"
    proof (clarify)
      fix r' c' assume "(r', c') \<in> set (greedy (rc # rcs) uR uC)"
      then consider "r' = row" "c' = col" | "(r', c') \<in> set ?G" by (auto simp: g)
      then show "entry t' (objectIDs ! r') = matched_entry t (inputCentroids ! c') (objectIDs ! r')"
      proof cases
        case 1
        have "?k \<notin> (\<lambda>(r, c). objectIDs ! r) ` set ?G" using other by fastforce
        with miss have "entry t' ?k = entry ?t1 ?k" by blast
        with 1 e1 [of ?k] show ?thesis by simp
      next
        case 2
        with hit have "entry t' (objectIDs ! r') = matched_entry ?t1 (inputCentroids ! c') (objectIDs ! r')"
          by blast
        moreover from other [OF 2] have "map_of (objects ?t1) (objectIDs ! r') = map_of (objects t) (objectIDs ! r')"
          by (simp add: update_conv')
        ultimately show ?thesis by (simp add: matched_entry_def)
      qed
    qed
    moreover have "\<forall>j. j \<notin> (\<lambda>(r, c). objectIDs ! r) ` set (greedy (rc # rcs) uR uC) \<longrightarrow> entry t' j = entry t j"
    proof (intro allI impI)
      fix j assume j: "j \<notin> (\<lambda>(r, c). objectIDs ! r) ` set (greedy (rc # rcs) uR uC)"
      then have "j \<noteq> ?k" "j \<notin> (\<lambda>(r, c). objectIDs ! r) ` set ?G" by (auto simp: g)
      with miss e1 [of j] show "entry t' j = entry t j" by simp
    qed
    ultimately show ?thesis using t' keys1 by simp
  qed
qed

lemma register_entry:
  "entry (register c t) k = (if k = nextObjectID t then new_entry c else entry t k)"
  by (simp add: entry_def register_def new_entry_def update_conv')

lemma fold_register_next:
  "nextObjectID (fold register xs t) = nextObjectID t + int (length xs) \<and>
   maxDisappeared (fold register xs t) = maxDisappeared t"
  by (induction xs arbitrary: t) (auto simp: register_def)

lemma fold_register_entry:
  "entry (fold register xs t) k =
     (if nextObjectID t \<le> k \<and> k < nextObjectID t + int (length xs)
      then new_entry (xs ! nat (k - nextObjectID t)) else entry t k)"
proof (induction xs arbitrary: t)
  case Nil
  then show ?case by auto
next
  case (Cons x xs)
  have n: "nextObjectID (register x t) = nextObjectID t + 1" by (simp add: register_def)
  show ?case
  proof (cases "k = nextObjectID t")
    case True
    with Cons [of "register x t"] n show ?thesis by (simp add: register_entry)
  next
    case False
    have "nat (k - nextObjectID t) = Suc (nat (k - (nextObjectID t + 1)))"
      if "nextObjectID t + 1 \<le> k" using that by linarith
    with False Cons [of "register x t"] n show ?thesis
      by (auto simp: register_entry)
  qed
qed

lemma update_empty:
  assumes "tracker_inv t"
  shows "\<exists>t'. update [] t = Inr t' \<and> tracker_inv t' \<and> evolves t t' \<and>
           (\<forall>k. entry t' k = aged (maxDisappeared t) (entry t k))"
proof -
  from assms have ks: "set (dict_keys (disappeared t)) \<subseteq> set (dict_keys (objects t))"
    "distinct (dict_keys (disappeared t))"
    by (simp_all add: tracker_inv_def)
  from for_each_age_ok [OF assms ks] obtain t' where
    t': "for_each age (dict_keys (disappeared t)) t = Inr t'" "tracker_inv t'" "evolves t t'"
    by blast
  have "entry t' k = aged (maxDisappeared t) (entry t k)" for k
  proof (cases "k \<in> set (dict_keys (objects t))")
    case True
    with assms for_each_age_entry [OF assms ks t'(1), of k] show ?thesis
      by (simp add: tracker_inv_def)
  next
    case False
    with assms for_each_age_entry [OF assms ks t'(1), of k] show ?thesis
      by (simp add: tracker_inv_def entry_absent)
  qed
  with t' show ?thesis by (auto simp: update_def)
qed

lemma matching_range:
  assumes "cs \<noteq> []" "(r, c) \<in> set (zip (argsort (map min_list (distances t cs)))
             (map (\<lambda>r. argmin (distances t cs ! r)) (argsort (map min_list (distances t cs)))))"
  shows "r < length (dict_keys (objects t)) \<and> c < length cs \<and> c = argmin (distances t cs ! r)"
proof -
  let ?D = "distances t cs"
  have lenD: "length ?D = length (dict_keys (objects t))"
    by (simp add: distances_def cdist_def dict_keys_def)
  from assms(2) have r: "r \<in> set (argsort (map min_list ?D))" and c: "c = argmin (?D ! r)"
    by (auto simp: set_zip)
  from r have rl: "r < length (dict_keys (objects t))" using lenD by (simp add: argsort_set)
  then have "?D ! r = map (sq_dist (map snd (objects t) ! r)) cs"
    by (simp add: distances_def cdist_def dict_keys_def)
  with assms(1) have "argmin (?D ! r) < length cs"
    using argmin_less [of "?D ! r"] by simp
  with rl c show ?thesis by simp
qed

lemma update_nonempty:
  assumes "tracker_inv t" "cs \<noteq> []" "objects t \<noteq> []"
  defines "ids \<equiv> dict_keys (objects t)"
  defines "M \<equiv> matching t cs"
  defines "U \<equiv> filter (\<lambda>c. c \<notin> snd ` set M) [0..<length cs]"
  shows "\<exists>t'. update cs t = Inr t' \<and> tracker_inv t' \<and> evolves t t' \<and>
           nextObjectID t' = nextObjectID t + int (length U) \<and>
           (\<forall>(r, c) \<in> set M. entry t' (ids ! r) = matched_entry t (cs ! c) (ids ! r)) \<and>
           (\<forall>k \<in> set ids. k \<notin> (\<lambda>(r, c). ids ! r) ` set M \<longrightarrow>
                entry t' k = aged (maxDisappeared t) (entry t k)) \<and>
           (\<forall>j < length U. entry t' (nextObjectID t + int j) = new_entry (cs ! (U ! j)))"
proof -
  let ?D = "distances t cs"
  let ?rows = "argsort (map min_list ?D)"
  let ?cols = "map (\<lambda>r. argmin (?D ! r)) ?rows"
  have M: "M = greedy (zip ?rows ?cols) {} {}" by (simp add: M_def matching_def Let_def)
  have lenD: "length ?D = length ids"
    by (simp add: distances_def cdist_def dict_keys_def ids_def)
  from assms(1) have dist: "distinct ids" and idsub: "set ids \<subseteq> set (dict_keys (objects t))"
    and below: "\<forall>k \<in> set ids. k < nextObjectID t"
    by (simp_all add: tracker_inv_def ids_def)
  have rc: "\<forall>(r, c) \<in> set (zip ?rows ?cols). r < length ids \<and> c < length cs"
    using matching_range [OF assms(2)] by (auto simp: ids_def)
  from match_rows_entry [OF assms(1) dist idsub rc, of "{}" "{}"] obtain t1 where
    m: "match_rows ids cs (zip ?rows ?cols) (t, {}, {}) = Inr (t1, fst ` set M, snd ` set M)"
    and t1: "tracker_inv t1" "dict_keys (objects t1) = ids" "nextObjectID t1 = nextObjectID t"
      "maxDisappeared t1 = maxDisappeared t"
    and hit: "\<forall>(r, c) \<in> set M. entry t1 (ids ! r) = matched_entry t (cs ! c) (ids ! r)"
    and miss: "\<forall>k. k \<notin> (\<lambda>(r, c). ids ! r) ` set M \<longrightarrow> entry t1 k = entry t k"
    unfolding M ids_def by auto
  from match_rows_ok [OF assms(1) idsub rc, of "{}" "{}"] m have ev1: "evolves t t1" by simp
  let ?unusedRows = "filter (\<lambda>r. r \<notin> fst ` set M) [0..<length ?D]"
  let ?aged = "map (\<lambda>r. ids ! r) ?unusedRows"
  have ur: "\<forall>r \<in> set ?unusedRows. r < length ids" using lenD by simp
  from dist have da: "distinct ?aged"
    by (simp add: distinct_map inj_on_def lenD nth_eq_iff_index_eq)
  have sub: "set ?aged \<subseteq> set (dict_keys (objects t1))"
    using t1(2) lenD by auto
  from for_each_age_ok [OF t1(1) sub da] obtain t2 where
    t2: "for_each age ?aged t1 = Inr t2" "tracker_inv t2" "evolves t1 t2"
      "set (dict_keys (objects t2)) \<subseteq> set (dict_keys (objects t1))"
      "nextObjectID t2 = nextObjectID t1"
    by blast
  have e2: "entry t2 k = (if k \<in> set ?aged then aged (maxDisappeared t) (entry t1 k) else entry t1 k)" for k
    using for_each_age_entry [OF t1(1) sub da t2(1), of k] t1(4) by simp
  have n2: "nextObjectID t2 = nextObjectID t" using t2(5) t1(3) by simp
  let ?t' = "fold register (map (\<lambda>c. cs ! c) U) t2"
  from fold_register_ok [OF t2(2)] have t': "tracker_inv ?t'" "evolves t2 ?t'" by simp_all
  have upd: "update cs t = Inr ?t'"
    using assms(2,3) m t2(1) for_each_rows [OF ur] M
    by (simp add: update_def Let_def distances_def ids_def U_def fold_register_cols)
  have e': "entry ?t' k = (if nextObjectID t \<le> k \<and> k < nextObjectID t + int (length U)
      then new_entry (cs ! (U ! nat (k - nextObjectID t))) else entry t2 k)" for k
    using fold_register_entry [of "map (\<lambda>c. cs ! c) U" t2 k] n2 by auto
  have "\<forall>(r, c) \<in> set M. entry ?t' (ids ! r) = matched_entry t (cs ! c) (ids ! r)"
  proof (clarify)
    fix r c assume rc': "(r, c) \<in> set M"
    then have rz: "(r, c) \<in> set (zip ?rows ?cols)" unfolding M using greedy_sound by blast
    with rc have rl: "r < length ids" by auto
    with below have "ids ! r < nextObjectID t" by simp
    then have "entry ?t' (ids ! r) = entry t2 (ids ! r)" using e' by simp
    moreover have "ids ! r \<notin> set ?aged"
    proof
      assume "ids ! r \<in> set ?aged"
      then obtain r' where "r' < length ids" "r' \<notin> fst ` set M" "ids ! r' = ids ! r"
        using lenD by auto
      with dist rl have "r' = r" by (simp add: nth_eq_iff_index_eq)
      with \<open>r' \<notin> fst ` set M\<close> rc' show False by force
    qed
    ultimately show "entry ?t' (ids ! r) = matched_entry t (cs ! c) (ids ! r)"
      using e2 hit rc' by auto
  qed
  moreover have "\<forall>k \<in> set ids. k \<notin> (\<lambda>(r, c). ids ! r) ` set M \<longrightarrow>
                entry ?t' k = aged (maxDisappeared t) (entry t k)"
  proof (intro ballI impI)
    fix k assume k: "k \<in> set ids" "k \<notin> (\<lambda>(r, c). ids ! r) ` set M"
    then obtain r where r: "r < length ids" "ids ! r = k" by (auto simp: in_set_conv_nth)
    with k(2) have "r \<notin> fst ` set M" by force
    with r lenD have "k \<in> set ?aged" by auto
    moreover from k below have "k < nextObjectID t" by blast
    then have "entry ?t' k = entry t2 k" using e' [of k] by simp
    ultimately show "entry ?t' k = aged (maxDisappeared t) (entry t k)"
      using e2 miss k(2) by simp
  qed
  moreover have "\<forall>j < length U. entry ?t' (nextObjectID t + int j) = new_entry (cs ! (U ! j))"
    using e' by simp
  moreover have "nextObjectID ?t' = nextObjectID t + int (length U)"
    using fold_register_next [of "map (\<lambda>c. cs ! c) U" t2] n2 by simp
  moreover have "evolves t ?t'"
    using ev1 t2 t' t1 by (blast intro: evolves_trans)
  ultimately show ?thesis using upd t' by blast
qed

section \<open>The greedy matching\<close>











section \<open>Disappearance tolerance\<close>

lemma update_unmatched:
  assumes "tracker_inv t" "unmatched t cs k"
  shows "\<exists>t'. update cs t = Inr t' \<and> tracker_inv t' \<and> maxDisappeared t' = maxDisappeared t \<and>
           entry t' k = aged (maxDisappeared t) (entry t k)"
proof (cases "cs = []")
  case True
  with update_empty [OF assms(1)] show ?thesis by (auto simp: evolves_def)
next
  case False
  from assms(2) have k: "k \<in> set (dict_keys (objects t))" by (simp add: unmatched_def)
  then have ne: "objects t \<noteq> []" by (auto simp: dict_keys_def)
  from assms(2) False have
    "k \<notin> (\<lambda>(r, c). dict_keys (objects t) ! r) ` set (matching t cs)"
    by (simp add: unmatched_def)
  with update_nonempty [OF assms(1) False ne] k show ?thesis
    by (auto simp: evolves_def)
qed

lemma unmatched_retained:
  assumes "tracker_inv t" "map_of (disappeared t) k = Some n" "unmatched_throughout k fs t"
    "n + int (length fs) \<le> maxDisappeared t"
  shows "\<exists>t'. for_each update fs t = Inr t' \<and> tracker_inv t' \<and>
           maxDisappeared t' = maxDisappeared t \<and>
           k \<in> set (dict_keys (objects t')) \<and> map_of (disappeared t') k = Some (n + int (length fs))"
  using assms
proof (induction fs arbitrary: t n)
  case Nil
  from Nil.prems(1,2) have "k \<in> set (dict_keys (objects t))"
    using map_of_None_keys [of "disappeared t" k] by (simp add: tracker_inv_def)
  with Nil show ?case by simp
next
  case (Cons f fs)
  from Cons.prems(3) have u: "unmatched t f k" by simp
  from update_unmatched [OF Cons.prems(1) u] obtain t1 where
    t1: "update f t = Inr t1" "tracker_inv t1" "maxDisappeared t1 = maxDisappeared t"
      "entry t1 k = aged (maxDisappeared t) (entry t k)"
    by blast
  from Cons.prems(2,4) t1(4) have d1: "map_of (disappeared t1) k = Some (n + 1)"
    by (simp add: entry_def)
  from Cons.prems(3) t1(1) have u1: "unmatched_throughout k fs t1" by simp
  from Cons.prems(4) t1(3) have "n + 1 + int (length fs) \<le> maxDisappeared t1" by simp
  from Cons.IH [OF t1(2) d1 u1 this] t1(1,3) show ?case by auto
qed

lemma unmatched_removed:
  assumes "tracker_inv t" "map_of (disappeared t) k = Some n" "unmatched_throughout k fs t"
    "n \<le> maxDisappeared t" "n + int (length fs) = maxDisappeared t + 1"
  shows "\<exists>t'. for_each update fs t = Inr t' \<and> k \<notin> set (dict_keys (objects t'))"
  using assms
proof (induction fs arbitrary: t n)
  case Nil
  then show ?case by simp
next
  case (Cons f fs)
  from Cons.prems(3) have u: "unmatched t f k" by simp
  from update_unmatched [OF Cons.prems(1) u] obtain t1 where
    t1: "update f t = Inr t1" "tracker_inv t1" "maxDisappeared t1 = maxDisappeared t"
      "entry t1 k = aged (maxDisappeared t) (entry t k)"
    by blast
  from Cons.prems(3) t1(1) have u1: "unmatched_throughout k fs t1" by simp
  show ?case
  proof (cases "n + 1 > maxDisappeared t")
    case True
    with Cons.prems(4,5) have fs: "fs = []" by simp
    from True Cons.prems(2) t1(4) have "map_of (objects t1) k = None" by (simp add: entry_def)
    then have "k \<notin> set (dict_keys (objects t1))" by (simp add: map_of_None_keys)
    with t1(1) fs show ?thesis by simp
  next
    case False
    with Cons.prems(2) t1(4) have d1: "map_of (disappeared t1) k = Some (n + 1)"
      by (simp add: entry_def)
    from False t1(3) have le: "n + 1 \<le> maxDisappeared t1" by simp
    from Cons.prems(5) t1(3) have "n + 1 + int (length fs) = maxDisappeared t1 + 1" by simp
    from Cons.IH [OF t1(2) d1 u1 le this] t1(1) show ?thesis by auto
  qed
qed

text \<open>
  C7. With \<open>maxDisappeared = 40\<close>, take an identity whose disappearance count is 0 and a run of
  updates none of which matches it, whether because the input is empty or because its row
  is left unmatched. After 40 such updates the identity is still in \<open>objects\<close>, with count
  40; after 41 it is deregistered. No update raises.
\<close>

theorem disappearance_tolerance:
  assumes "tracker_inv t" "maxDisappeared t = 40" "map_of (disappeared t) k = Some 0"
    "unmatched_throughout k fs t"
  shows "(length fs = 40 \<longrightarrow>
            (\<exists>t'. for_each update fs t = Inr t' \<and> k \<in> set (dict_keys (objects t')) \<and>
                  map_of (disappeared t') k = Some 40)) \<and>
         (length fs = 41 \<longrightarrow>
            (\<exists>t'. for_each update fs t = Inr t' \<and> k \<notin> set (dict_keys (objects t'))))"
proof (intro conjI impI)
  assume l: "length fs = 40"
  with assms(2) have "0 + int (length fs) \<le> maxDisappeared t" by simp
  from unmatched_retained [OF assms(1,3,4) this] l
  show "\<exists>t'. for_each update fs t = Inr t' \<and> k \<in> set (dict_keys (objects t')) \<and>
                  map_of (disappeared t') k = Some 40"
    by auto
next
  assume l: "length fs = 41"
  with assms(2) have "0 \<le> maxDisappeared t" "0 + int (length fs) = maxDisappeared t + 1" by simp_all
  from unmatched_removed [OF assms(1,3,4) this]
  show "\<exists>t'. for_each update fs t = Inr t' \<and> k \<notin> set (dict_keys (objects t'))" .
qed

theorem disappearance_tolerance_witness:
  "tracker_inv two_objects \<and> maxDisappeared two_objects = 40 \<and>
   map_of (disappeared two_objects) 1 = Some 0 \<and>
   unmatched_throughout 1 (replicate 20 [] @ replicate 20 [(1, 0)]) two_objects \<and>
   unmatched_throughout 1 (replicate 20 [] @ replicate 21 [(1, 0)]) two_objects \<and>
   (\<exists>t'. for_each update (replicate 20 [] @ replicate 20 [(1, 0)]) two_objects = Inr t' \<and>
         1 \<in> set (dict_keys (objects t')) \<and> map_of (disappeared t') 1 = Some 40) \<and>
   (\<exists>t'. for_each update (replicate 20 [] @ replicate 21 [(1, 0)]) two_objects = Inr t' \<and>
         1 \<notin> set (dict_keys (objects t')))"
proof -
  have h1: "tracker_inv two_objects"
    by (simp add: two_objects_def tracker_inv_def dict_keys_def)
  have h2: "maxDisappeared two_objects = 40" and h3: "map_of (disappeared two_objects) 1 = Some 0"
    by (simp_all add: two_objects_def)
  have u40: "unmatched_throughout 1 (replicate 20 [] @ replicate 20 [(1, 0)]) two_objects"
    by code_simp
  have u41: "unmatched_throughout 1 (replicate 20 [] @ replicate 21 [(1, 0)]) two_objects"
    by code_simp
  from disappearance_tolerance [OF h1 h2 h3 u40] disappearance_tolerance [OF h1 h2 h3 u41]
    h1 h2 h3 u40 u41
  show ?thesis by simp
qed

section \<open>Crossing the line\<close>

lemma evaluate_uncounted:
  assumes "map_of (counted ct) k = Some False" "map_of (previousCentroids ct) k = Some prev"
  shows "evaluate_object lo alg min_disp pt1 pt2 (k, c) (ct, counts) =
     Inr (if crossed lo pt1 pt2 prev c \<and> \<not> (alg = ''threshold'' \<and> displacement lo prev c < min_disp)
          then (ct\<lparr> counted := AList.update k True (counted ct) \<rparr>, count_crossing lo pt1 pt2 prev c counts)
          else (ct, counts))"
  using assms by (simp add: evaluate_object_def dict_get_def)




lemma signed_distance_eq:
  "signed_distance pt1 pt2 p =
     of_int (cross2 (minus2 p pt1) (minus2 pt2 pt1)) /
       (if norm2 (minus2 pt2 pt1) = 0 then 1 else norm2 (minus2 pt2 pt1))"
  by (simp add: signed_distance_def cross2_def norm2_def minus2_def Let_def)

lemma divisor_pos: "0 < (if norm2 v = 0 then 1 else norm2 v)"
proof -
  have "0 \<le> norm2 v" unfolding norm2_def by simp
  then show ?thesis by (cases "norm2 v = 0") auto
qed

lemma signed_distance_pos:
  "0 < signed_distance pt1 pt2 p \<longleftrightarrow> 0 < cross2 (minus2 p pt1) (minus2 pt2 pt1)"
  unfolding signed_distance_eq using divisor_pos [of "minus2 pt2 pt1"]
  by (simp add: zero_less_divide_iff)

lemma signed_distance_neg:
  "signed_distance pt1 pt2 p < 0 \<longleftrightarrow> cross2 (minus2 p pt1) (minus2 pt2 pt1) < 0"
  unfolding signed_distance_eq using divisor_pos [of "minus2 pt2 pt1"]
  by (simp add: divide_less_0_iff)

lemma signed_distance_product:
  "signed_distance pt1 pt2 p * signed_distance pt1 pt2 q < 0 \<longleftrightarrow>
     (0 < cross2 (minus2 p pt1) (minus2 pt2 pt1) \<and> cross2 (minus2 q pt1) (minus2 pt2 pt1) < 0) \<or>
     (cross2 (minus2 p pt1) (minus2 pt2 pt1) < 0 \<and> 0 < cross2 (minus2 q pt1) (minus2 pt2 pt1))"
  by (simp add: mult_less_0_iff signed_distance_pos signed_distance_neg)

text \<open>The crossing test and the choice of the counter only use the signs of the signed
  distances, which are the signs of the integer cross products: equations by which the
  two are computed.\<close>

lemma crossed_code [code]:
  "crossed lo pt1 pt2 prev centroid =
     (if orientation lo = ''horizontal'' then
        (snd prev > snd pt1 \<and> snd centroid \<le> snd pt1) \<or>
        (snd prev < snd pt1 \<and> snd centroid \<ge> snd pt1)
      else if orientation lo = ''vertical'' then
        (fst prev > fst pt1 \<and> fst centroid \<le> fst pt1) \<or>
        (fst prev < fst pt1 \<and> fst centroid \<ge> fst pt1)
      else if orientation lo = ''diagonal'' then
        (0 < cross2 (minus2 prev pt1) (minus2 pt2 pt1) \<and>
           cross2 (minus2 centroid pt1) (minus2 pt2 pt1) < 0) \<or>
        (cross2 (minus2 prev pt1) (minus2 pt2 pt1) < 0 \<and>
           0 < cross2 (minus2 centroid pt1) (minus2 pt2 pt1))
      else False)"
  by (simp add: crossed_def signed_distance_product)

lemma count_crossing_code [code]:
  "count_crossing lo pt1 pt2 prev centroid counts =
     (case counts of (dir1, dir2) \<Rightarrow>
        if orientation lo = ''horizontal'' then
          (if snd prev > snd pt1 \<and> snd centroid \<le> snd pt1 then (dir1 + 1, dir2)
           else if snd prev < snd pt1 \<and> snd centroid \<ge> snd pt1 then (dir1, dir2 + 1)
           else (dir1, dir2))
        else if orientation lo = ''vertical'' then
          (if fst prev > fst pt1 \<and> fst centroid \<le> fst pt1 then (dir1 + 1, dir2)
           else if fst prev < fst pt1 \<and> fst centroid \<ge> fst pt1 then (dir1, dir2 + 1)
           else (dir1, dir2))
        else if orientation lo = ''diagonal'' then
          (if 0 < cross2 (minus2 prev pt1) (minus2 pt2 pt1) then (dir1 + 1, dir2)
           else (dir1, dir2 + 1))
        else (dir1, dir2))"
  by (cases counts) (simp add: count_crossing_def signed_distance_pos)

text \<open>
  C6. For a diagonal line from \<open>pt1\<close> to \<open>pt2\<close>, with \<open>v = pt2 - pt1\<close>: the signed distance of a
  point is the cross product of its offset from \<open>pt1\<close> with \<open>v\<close>, over the length of \<open>v\<close> (over
  1 when that length is 0); a crossing is detected exactly when the signed distances of
  the previous and the current centroid have a negative product, which is when the two
  cross products have strictly opposite signs; and, unless the threshold algorithm
  withholds it, the crossing of an identity not yet counted adds one to the first counter
  (diag1) when the previous signed distance is positive and to the second (diag2)
  otherwise, and marks the identity counted.
\<close>

theorem diagonal_crossing:
  fixes lo :: line_options and alg :: string and min_disp d1 d2 k :: int
    and pt1 pt2 c prev :: centroid and ct :: CentroidTracker
  assumes "orientation lo = ''diagonal''"
    "map_of (counted ct) k = Some False" "map_of (previousCentroids ct) k = Some prev"
  defines "v \<equiv> minus2 pt2 pt1"
  defines "d \<equiv> signed_distance pt1 pt2"
  defines "gated \<equiv> alg = ''threshold'' \<and> displacement lo prev c < min_disp"
  defines "marked \<equiv> ct\<lparr> counted := AList.update k True (counted ct) \<rparr>"
  shows "(\<forall>p. d p = of_int (cross2 (minus2 p pt1) v) / (if norm2 v = 0 then 1 else norm2 v)) \<and>
         (crossed lo pt1 pt2 prev c \<longleftrightarrow> d prev * d c < 0) \<and>
         (d prev * d c < 0 \<longleftrightarrow>
            (0 < cross2 (minus2 prev pt1) v \<and> cross2 (minus2 c pt1) v < 0) \<or>
            (cross2 (minus2 prev pt1) v < 0 \<and> 0 < cross2 (minus2 c pt1) v)) \<and>
         (0 < d prev \<longleftrightarrow> 0 < cross2 (minus2 prev pt1) v) \<and>
         evaluate_object lo alg min_disp pt1 pt2 (k, c) (ct, d1, d2) =
           Inr (if d prev * d c < 0 \<and> \<not> gated
                then (if 0 < d prev then (marked, d1 + 1, d2) else (marked, d1, d2 + 1))
                else (ct, d1, d2))"
proof -
  have a: "\<forall>p. d p = of_int (cross2 (minus2 p pt1) v) / (if norm2 v = 0 then 1 else norm2 v)"
    unfolding d_def v_def by (simp add: signed_distance_eq)
  have b: "crossed lo pt1 pt2 prev c \<longleftrightarrow> d prev * d c < 0"
    using assms(1) by (simp add: crossed_def d_def)
  have c: "d prev * d c < 0 \<longleftrightarrow>
            (0 < cross2 (minus2 prev pt1) v \<and> cross2 (minus2 c pt1) v < 0) \<or>
            (cross2 (minus2 prev pt1) v < 0 \<and> 0 < cross2 (minus2 c pt1) v)"
    unfolding d_def v_def by (rule signed_distance_product)
  have e: "0 < d prev \<longleftrightarrow> 0 < cross2 (minus2 prev pt1) v"
    unfolding d_def v_def by (rule signed_distance_pos)
  have f: "evaluate_object lo alg min_disp pt1 pt2 (k, c) (ct, d1, d2) =
           Inr (if d prev * d c < 0 \<and> \<not> gated
                then (if 0 < d prev then (marked, d1 + 1, d2) else (marked, d1, d2 + 1))
                else (ct, d1, d2))"
    unfolding evaluate_uncounted [OF assms(2,3)] gated_def marked_def d_def
    using assms(1) by (simp add: crossed_def count_crossing_def)
  from a b c e f show ?thesis by blast
qed

theorem diagonal_crossing_witness:
  "orientation (diagonal_line 0) = ''diagonal'' \<and>
   line_points (diagonal_line 0) 10 10 = ((0, 0), (10, 10)) \<and>
   crossed (diagonal_line 0) (0, 0) (10, 10) (2, 8) (8, 2) \<and>
   evaluate_object (diagonal_line 0) ''standard'' 10 (0, 0) (10, 10) (0, (8, 2))
       (one_object (2, 8) (8, 2), 0, 0) =
     Inr ((one_object (2, 8) (8, 2))\<lparr> counted := [(0, True)] \<rparr>, 0, 1)"
proof -
  have o: "orientation (diagonal_line 0) = ''diagonal''" by (simp add: diagonal_line_def)
  have h: "map_of (counted (one_object (2, 8) (8, 2))) 0 = Some False"
    "map_of (previousCentroids (one_object (2, 8) (8, 2))) 0 = Some (2, 8)"
    by (simp_all add: one_object_def)
  have l: "line_points (diagonal_line 0) 10 10 = ((0, 0), (10, 10))"
    by (simp add: line_points_def diagonal_line_def py_int_def)
  have x: "cross2 (minus2 (2, 8) (0, 0)) (minus2 (10, 10) (0, 0)) = - 60"
    "cross2 (minus2 (8, 2) (0, 0)) (minus2 (10, 10) (0, 0)) = 60"
    by (simp_all add: cross2_def minus2_def)
  note d = diagonal_crossing [OF o h, where ?pt1.0 = "(0, 0)" and ?pt2.0 = "(10, 10)"
      and c = "(8, 2)" and alg = "''standard''" and min_disp = 10 and ?d1.0 = 0 and ?d2.0 = 0]
  note d_crossed = d [THEN conjunct2, THEN conjunct1]
    and d_product = d [THEN conjunct2, THEN conjunct2, THEN conjunct1]
    and d_positive = d [THEN conjunct2, THEN conjunct2, THEN conjunct2, THEN conjunct1]
    and d_result = d [THEN conjunct2, THEN conjunct2, THEN conjunct2, THEN conjunct2]
  from d_product have neg:
    "signed_distance (0, 0) (10, 10) (2, 8) * signed_distance (0, 0) (10, 10) (8, 2) < 0"
    unfolding x by simp
  from d_positive have notpos: "\<not> 0 < signed_distance (0, 0) (10, 10) (2, 8)"
    unfolding x by simp
  from d_crossed neg have c: "crossed (diagonal_line 0) (0, 0) (10, 10) (2, 8) (8, 2)" by simp
  from d_result neg notpos
  have e: "evaluate_object (diagonal_line 0) ''standard'' 10 (0, 0) (10, 10) (0, (8, 2))
       (one_object (2, 8) (8, 2), 0, 0) =
     Inr ((one_object (2, 8) (8, 2))\<lparr> counted := [(0, True)] \<rparr>, 0, 1)"
    by (simp add: one_object_def)
  from o l c e show ?thesis by blast
qed

text \<open>
  C5. For an identity not yet counted whose crossing is detected: the displacement is the
  absolute change of Y for a horizontal line, of X for a vertical line and of x + y for a
  diagonal line. Under the threshold algorithm a displacement strictly below
  \<open>min_disp\<close> leaves the tracker and the counters as they were, so no event is recorded and
  the identity stays uncounted, open to a later crossing; a displacement of at least
  \<open>min_disp\<close>, and any detected crossing under the standard algorithm, adds one to exactly
  one counter and marks the identity counted.
\<close>

theorem displacement_gating:
  fixes lo :: line_options and alg :: string and min_disp d1 d2 k :: int
    and pt1 pt2 c prev :: centroid and ct :: CentroidTracker
  assumes "map_of (counted ct) k = Some False" "map_of (previousCentroids ct) k = Some prev"
    "crossed lo pt1 pt2 prev c"
  defines "marked \<equiv> ct\<lparr> counted := AList.update k True (counted ct) \<rparr>"
  defines "result \<equiv> evaluate_object lo alg min_disp pt1 pt2 (k, c) (ct, d1, d2)"
  shows "(orientation lo = ''horizontal'' \<longrightarrow> displacement lo prev c = \<bar>snd c - snd prev\<bar>) \<and>
         (orientation lo = ''vertical'' \<longrightarrow> displacement lo prev c = \<bar>fst c - fst prev\<bar>) \<and>
         (orientation lo = ''diagonal'' \<longrightarrow>
            displacement lo prev c = \<bar>(fst c + snd c) - (fst prev + snd prev)\<bar>) \<and>
         (alg = ''threshold'' \<and> displacement lo prev c < min_disp \<longrightarrow> result = Inr (ct, d1, d2)) \<and>
         (alg = ''standard'' \<or> (alg = ''threshold'' \<and> min_disp \<le> displacement lo prev c) \<longrightarrow>
            (\<exists>e1 e2. result = Inr (marked, e1, e2) \<and> e1 + e2 = d1 + d2 + 1 \<and>
                      map_of (counted marked) k = Some True))"
proof -
  have a: "orientation lo = ''horizontal'' \<longrightarrow> displacement lo prev c = \<bar>snd c - snd prev\<bar>"
    "orientation lo = ''vertical'' \<longrightarrow> displacement lo prev c = \<bar>fst c - fst prev\<bar>"
    "orientation lo = ''diagonal'' \<longrightarrow>
       displacement lo prev c = \<bar>(fst c + snd c) - (fst prev + snd prev)\<bar>"
    by (simp_all add: displacement_def)
  have b: "alg = ''threshold'' \<and> displacement lo prev c < min_disp \<longrightarrow> result = Inr (ct, d1, d2)"
    unfolding result_def evaluate_uncounted [OF assms(1,2)] by simp
  have one: "\<exists>e1 e2. count_crossing lo pt1 pt2 prev c (d1, d2) = (e1, e2) \<and> e1 + e2 = d1 + d2 + 1"
    using assms(3) by (auto simp: crossed_def count_crossing_def split: if_splits)
  have c: "alg = ''standard'' \<or> (alg = ''threshold'' \<and> min_disp \<le> displacement lo prev c) \<longrightarrow>
            (\<exists>e1 e2. result = Inr (marked, e1, e2) \<and> e1 + e2 = d1 + d2 + 1 \<and>
                      map_of (counted marked) k = Some True)"
    unfolding result_def evaluate_uncounted [OF assms(1,2)] marked_def
    using assms(3) one by (auto simp: update_conv')
  from a b c show ?thesis by blast
qed

theorem displacement_gating_witness:
  "crossed (horizontal_line (1 / 2)) (0, 100) (640, 100) (50, 102) (50, 97) \<and>
   displacement (horizontal_line (1 / 2)) (50, 102) (50, 97) = 5 \<and>
   evaluate_object (horizontal_line (1 / 2)) ''threshold'' 15 (0, 100) (640, 100) (0, (50, 97))
       (one_object (50, 102) (50, 97), 0, 0) =
     Inr (one_object (50, 102) (50, 97), 0, 0) \<and>
   crossed (horizontal_line (1 / 2)) (0, 100) (640, 100) (50, 97) (50, 115) \<and>
   displacement (horizontal_line (1 / 2)) (50, 97) (50, 115) = 18 \<and>
   (\<exists>e1 e2. evaluate_object (horizontal_line (1 / 2)) ''threshold'' 15 (0, 100) (640, 100)
               (0, (50, 115)) (one_object (50, 97) (50, 115), 0, 0) =
             Inr ((one_object (50, 97) (50, 115))\<lparr> counted := [(0, True)] \<rparr>, e1, e2) \<and>
             e1 + e2 = 1) \<and>
   dir_counts (snd (run_frames
       (directional_frame ''rtsp://cam'' ''car'' (horizontal_line (1 / 2)) ''threshold'' 15 60 0)
       [cam_view [(50, 102)] 10 False, cam_view [(50, 97)] 20 False]
       \<lparr> tracker = CentroidTracker_init 40, dir_counts = (0, 0), last_record_time = 0,
         store = [] \<rparr>)) = (0, 0) \<and>
   dir_counts (snd (run_frames
       (directional_frame ''rtsp://cam'' ''car'' (horizontal_line (1 / 2)) ''threshold'' 15 60 0)
       [cam_view [(50, 102)] 10 False, cam_view [(50, 97)] 20 False, cam_view [(50, 115)] 30 False]
       \<lparr> tracker = CentroidTracker_init 40, dir_counts = (0, 0), last_record_time = 0,
         store = [] \<rparr>)) = (0, 1)"
proof -
  let ?lo = "horizontal_line (1 / 2)"
  have h1: "map_of (counted (one_object (50, 102) (50, 97))) 0 = Some False"
    "map_of (previousCentroids (one_object (50, 102) (50, 97))) 0 = Some (50, 102)"
    and h2: "map_of (counted (one_object (50, 97) (50, 115))) 0 = Some False"
    "map_of (previousCentroids (one_object (50, 97) (50, 115))) 0 = Some (50, 97)"
    by (simp_all add: one_object_def)
  have c1: "crossed ?lo (0, 100) (640, 100) (50, 102) (50, 97)"
    and c2: "crossed ?lo (0, 100) (640, 100) (50, 97) (50, 115)"
    by (simp_all add: crossed_def horizontal_line_def)
  have d1: "displacement ?lo (50, 102) (50, 97) = 5"
    and d2: "displacement ?lo (50, 97) (50, 115) = 18"
    by (simp_all add: displacement_def horizontal_line_def)
  from displacement_gating [OF h1 c1, where alg = "''threshold''" and min_disp = 15
      and ?d1.0 = 0 and ?d2.0 = 0]
  have a: "evaluate_object ?lo ''threshold'' 15 (0, 100) (640, 100) (0, (50, 97))
       (one_object (50, 102) (50, 97), 0, 0) = Inr (one_object (50, 102) (50, 97), 0, 0)"
    unfolding d1 by simp
  from displacement_gating [OF h2 c2, where alg = "''threshold''" and min_disp = 15
      and ?d1.0 = 0 and ?d2.0 = 0]
  have b: "\<exists>e1 e2. evaluate_object ?lo ''threshold'' 15 (0, 100) (640, 100)
               (0, (50, 115)) (one_object (50, 97) (50, 115), 0, 0) =
             Inr ((one_object (50, 97) (50, 115))\<lparr> counted := [(0, True)] \<rparr>, e1, e2) \<and>
             e1 + e2 = 1"
    unfolding d2 by (simp add: one_object_def)
  have r1: "dir_counts (snd (run_frames
       (directional_frame ''rtsp://cam'' ''car'' ?lo ''threshold'' 15 60 0)
       [cam_view [(50, 102)] 10 False, cam_view [(50, 97)] 20 False]
       \<lparr> tracker = CentroidTracker_init 40, dir_counts = (0, 0), last_record_time = 0,
         store = [] \<rparr>)) = (0, 0)"
    by code_simp
  have r2: "dir_counts (snd (run_frames
       (directional_frame ''rtsp://cam'' ''car'' ?lo ''threshold'' 15 60 0)
       [cam_view [(50, 102)] 10 False, cam_view [(50, 97)] 20 False, cam_view [(50, 115)] 30 False]
       \<lparr> tracker = CentroidTracker_init 40, dir_counts = (0, 0), last_record_time = 0,
         store = [] \<rparr>)) = (0, 1)"
    by code_simp
  from c1 d1 a c2 d2 b r1 r2 show ?thesis by blast
qed

section \<open>Counted once\<close>

lemma for_each_keep_marks:
  fixes body :: "int \<times> centroid \<Rightarrow> CentroidTracker \<times> 'c \<Rightarrow> py_error + CentroidTracker \<times> 'c"
    and \<mu> :: "'c \<Rightarrow> int"
  assumes body: "\<And>k c ct n b. map_of (counted ct) k = Some b \<Longrightarrow>
      body (k, c) (ct, n) = Inr (ct, n) \<or>
      (b = False \<and> (\<exists>n'. body (k, c) (ct, n) =
           Inr (ct\<lparr> counted := AList.update k True (counted ct) \<rparr>, n') \<and> \<mu> n' = \<mu> n + 1))"
    and "distinct (map fst its)" "set (map fst its) \<subseteq> set (dict_keys (counted ct))"
  shows "\<exists>ct' n'. for_each_keep body its (ct, n) = (None, (ct', n')) \<and>
           same_but_counted ct ct' \<and>
           dict_keys (counted ct') = dict_keys (counted ct) \<and>
           (\<forall>k. map_of (counted ct') k = map_of (counted ct) k \<or>
                (k \<in> set (map fst its) \<and> map_of (counted ct) k = Some False \<and>
                 map_of (counted ct') k = Some True)) \<and>
           \<mu> n' = \<mu> n + int (length (filter (\<lambda>k. map_of (counted ct) k = Some False \<and>
                                              map_of (counted ct') k = Some True) (map fst its)))"
  using assms(2,3)
proof (induction its arbitrary: ct n)
  case Nil
  then show ?case by (simp add: same_but_counted_def)
next
  case (Cons it its)
  obtain k c where it: "it = (k, c)" by (cases it)
  from Cons.prems it have kin: "k \<in> set (dict_keys (counted ct))" and knot: "k \<notin> set (map fst its)"
    and d: "distinct (map fst its)" and sub: "set (map fst its) \<subseteq> set (dict_keys (counted ct))"
    by auto
  from kin obtain b where b: "map_of (counted ct) k = Some b"
    using map_of_Some_keys by blast
  from body [OF b, of c n] obtain ct1 n1 where
    step: "body (k, c) (ct, n) = Inr (ct1, n1)"
    and alt: "(ct1 = ct \<and> n1 = n) \<or>
       (b = False \<and> ct1 = ct\<lparr> counted := AList.update k True (counted ct) \<rparr> \<and> \<mu> n1 = \<mu> n + 1)"
    by auto
  from alt kin have keys1: "dict_keys (counted ct1) = dict_keys (counted ct)"
    by (auto simp: dict_keys_update)
  from alt have rec1: "same_but_counted ct ct1" by (auto simp: same_but_counted_def)
  from alt have other: "map_of (counted ct1) j = map_of (counted ct) j" if "j \<noteq> k" for j
    using that by (auto simp: update_conv')
  from sub keys1 have sub1: "set (map fst its) \<subseteq> set (dict_keys (counted ct1))" by simp
  from Cons.IH [OF d sub1, of n1] obtain ct' n' where
    run: "for_each_keep body its (ct1, n1) = (None, (ct', n'))"
    and rec': "same_but_counted ct1 ct'"
    and keys': "dict_keys (counted ct') = dict_keys (counted ct1)"
    and flags': "\<forall>j. map_of (counted ct') j = map_of (counted ct1) j \<or>
                (j \<in> set (map fst its) \<and> map_of (counted ct1) j = Some False \<and>
                 map_of (counted ct') j = Some True)"
    and cnt': "\<mu> n' = \<mu> n1 + int (length (filter (\<lambda>j. map_of (counted ct1) j = Some False \<and>
                                              map_of (counted ct') j = Some True) (map fst its)))"
    by blast
  from flags' knot have k': "map_of (counted ct') k = map_of (counted ct1) k" by blast
  have same_filter: "filter (\<lambda>j. map_of (counted ct1) j = Some False \<and>
                         map_of (counted ct') j = Some True) (map fst its) =
                     filter (\<lambda>j. map_of (counted ct) j = Some False \<and>
                         map_of (counted ct') j = Some True) (map fst its)"
  proof (rule filter_cong [OF refl])
    fix j assume "j \<in> set (map fst its)"
    with knot have "j \<noteq> k" by auto
    from other [OF this]
    show "(map_of (counted ct1) j = Some False \<and> map_of (counted ct') j = Some True) =
          (map_of (counted ct) j = Some False \<and> map_of (counted ct') j = Some True)"
      by simp
  qed
  have a: "for_each_keep body (it # its) (ct, n) = (None, (ct', n'))"
    using it step run by simp
  have b': "same_but_counted ct ct'"
    using rec' rec1 by (simp add: same_but_counted_def)
  have c': "dict_keys (counted ct') = dict_keys (counted ct)" using keys' keys1 by simp
  have d': "\<forall>j. map_of (counted ct') j = map_of (counted ct) j \<or>
                (j \<in> set (map fst (it # its)) \<and> map_of (counted ct) j = Some False \<and>
                 map_of (counted ct') j = Some True)"
  proof
    fix j
    show "map_of (counted ct') j = map_of (counted ct) j \<or>
                (j \<in> set (map fst (it # its)) \<and> map_of (counted ct) j = Some False \<and>
                 map_of (counted ct') j = Some True)"
    proof (cases "j = k")
      case True
      with k' alt b it show ?thesis by (auto simp: update_conv')
    next
      case False
      from flags' have "map_of (counted ct') j = map_of (counted ct1) j \<or>
                (j \<in> set (map fst its) \<and> map_of (counted ct1) j = Some False \<and>
                 map_of (counted ct') j = Some True)" by (rule spec)
      with other [OF False] show ?thesis by fastforce
    qed
  qed
  have e': "\<mu> n' = \<mu> n + int (length (filter (\<lambda>j. map_of (counted ct) j = Some False \<and>
                                              map_of (counted ct') j = Some True) (map fst (it # its))))"
  proof (cases "ct1 = ct \<and> n1 = n")
    case True
    with k' have "\<not> (map_of (counted ct) k = Some False \<and> map_of (counted ct') k = Some True)"
      by auto
    with cnt' same_filter True it show ?thesis by simp
  next
    case False
    with alt have f: "b = False" "ct1 = ct\<lparr> counted := AList.update k True (counted ct) \<rparr>"
      "\<mu> n1 = \<mu> n + 1" by auto
    with k' b have "map_of (counted ct) k = Some False \<and> map_of (counted ct') k = Some True"
      by (simp add: update_conv')
    with cnt' same_filter f(3) it show ?thesis by simp
  qed
  from a b' c' d' e' show ?case by blast
qed

lemma count_crossing_one:
  "crossed lo pt1 pt2 prev c \<Longrightarrow>
   \<exists>e1 e2. count_crossing lo pt1 pt2 prev c (d1, d2) = (e1, e2) \<and> e1 + e2 = d1 + d2 + 1"
  by (auto simp: crossed_def count_crossing_def split: if_splits)

lemma evaluate_object_marks:
  assumes "map_of (counted ct) k = Some b"
  shows "evaluate_object lo alg m pt1 pt2 (k, c) (ct, n) = Inr (ct, n) \<or>
      (b = False \<and> (\<exists>n'. evaluate_object lo alg m pt1 pt2 (k, c) (ct, n) =
           Inr (ct\<lparr> counted := AList.update k True (counted ct) \<rparr>, n') \<and>
           fst n' + snd n' = fst n + snd n + 1))"
proof -
  obtain d1 d2 where n: "n = (d1, d2)" by (cases n)
  let ?prev = "case map_of (previousCentroids ct) k of None \<Rightarrow> c | Some p \<Rightarrow> p"
  show ?thesis
  proof (cases "\<not> b \<and> crossed lo pt1 pt2 ?prev c \<and>
                \<not> (alg = ''threshold'' \<and> displacement lo ?prev c < m)")
    case True
    then have cr: "crossed lo pt1 pt2 ?prev c" by simp
    from count_crossing_one [OF cr, of d1 d2] obtain e1 e2 where
      "count_crossing lo pt1 pt2 ?prev c (d1, d2) = (e1, e2)" "e1 + e2 = d1 + d2 + 1" by blast
    with True assms n show ?thesis
      by (auto simp: evaluate_object_def dict_get_def Let_def)
  next
    case False
    with assms show ?thesis
      by (auto simp: evaluate_object_def dict_get_def Let_def)
  qed
qed

lemma count_unique_marks:
  assumes "map_of (counted ct) k = Some b"
  shows "count_unique (k, c) (ct, n) = Inr (ct, n) \<or>
      (b = False \<and> (\<exists>n'. count_unique (k, c) (ct, n) =
           Inr (ct\<lparr> counted := AList.update k True (counted ct) \<rparr>, n') \<and> n' = n + 1))"
  using assms by (auto simp: count_unique_def dict_get_def)

lemma frame_marks:
  assumes inv: "tracker_inv t" and inv1: "tracker_inv t1" and ev: "evolves t t1"
    and same: "same_but_counted t1 t2"
    and keys: "dict_keys (counted t2) = dict_keys (counted t1)"
    and flags: "\<forall>k. map_of (counted t2) k = map_of (counted t1) k \<or>
                 (map_of (counted t1) k = Some False \<and> map_of (counted t2) k = Some True)"
  shows "tracker_inv t2"
    and "\<forall>k. settled t k \<longrightarrow> settled t2 k"
    and "newly_counted t t2 =
           filter (\<lambda>k. map_of (counted t1) k = Some False \<and> map_of (counted t2) k = Some True)
             (dict_keys (counted t1))"
    and "\<forall>k \<in> set (newly_counted t t2). \<not> settled t k \<and> settled t2 k"
    and "distinct (newly_counted t t2)"
    and "\<forall>k. map_of (counted t) k = Some True \<longrightarrow> map_of (counted t2) k \<noteq> Some False"
proof -
  from same have f: "nextObjectID t2 = nextObjectID t1" "objects t2 = objects t1"
    "disappeared t2 = disappeared t1" "previousCentroids t2 = previousCentroids t1"
    by (simp_all add: same_but_counted_def)
  from inv1 f keys show inv2: "tracker_inv t2" by (simp add: tracker_inv_def)
  from ev have nx: "nextObjectID t \<le> nextObjectID t1"
    and old_new: "\<forall>k \<in> set (dict_keys (objects t1)).
        (k \<in> set (dict_keys (objects t)) \<and> map_of (counted t1) k = map_of (counted t) k) \<or>
        (nextObjectID t \<le> k \<and> map_of (counted t1) k = Some False)"
    by (simp_all add: evolves_def)
  from inv have below: "\<forall>k \<in> set (dict_keys (objects t)). k < nextObjectID t"
    and ck: "dict_keys (counted t) = dict_keys (objects t)"
    by (simp_all add: tracker_inv_def)
  from inv1 have ck1: "dict_keys (counted t1) = dict_keys (objects t1)"
    and d1: "distinct (dict_keys (objects t1))"
    and below1: "\<forall>k \<in> set (dict_keys (objects t1)). k < nextObjectID t1"
    by (simp_all add: tracker_inv_def)
  have absent: "map_of (counted t) k = None" if "k \<notin> set (dict_keys (objects t))" for k
    using that ck by (simp add: map_of_None_keys)
  have absent1: "map_of (counted t1) k = None" if "k \<notin> set (dict_keys (objects t1))" for k
    using that ck1 by (simp add: map_of_None_keys)
  have pres: "map_of (counted t2) k \<noteq> Some False"
    if "k < nextObjectID t" "map_of (counted t) k \<noteq> Some False" for k
  proof (cases "k \<in> set (dict_keys (objects t1))")
    case True
    with old_new that have "map_of (counted t1) k = map_of (counted t) k" by force
    with flags that(2) show ?thesis by metis
  next
    case False
    from absent1 [OF False] flags have "map_of (counted t2) k = None" by (metis option.distinct(1))
    then show ?thesis by simp
  qed
  show s: "\<forall>k. settled t k \<longrightarrow> settled t2 k"
    using pres nx f(1) by (auto simp: settled_def)
  show "\<forall>k. map_of (counted t) k = Some True \<longrightarrow> map_of (counted t2) k \<noteq> Some False"
  proof (intro allI impI)
    fix k assume t: "map_of (counted t) k = Some True"
    then have "k \<in> set (dict_keys (objects t))" using absent [of k] by auto
    with below have "k < nextObjectID t" by blast
    with pres [of k] t show "map_of (counted t2) k \<noteq> Some False" by simp
  qed
  have eqv: "(map_of (counted t2) k = Some True \<and> map_of (counted t) k \<noteq> Some True) =
             (map_of (counted t1) k = Some False \<and> map_of (counted t2) k = Some True)"
    if "k \<in> set (dict_keys (counted t1))" for k
  proof -
    from that ck1 have k1: "k \<in> set (dict_keys (objects t1))" by simp
    from k1 old_new have "(k \<in> set (dict_keys (objects t)) \<and> map_of (counted t1) k = map_of (counted t) k) \<or>
        (nextObjectID t \<le> k \<and> map_of (counted t1) k = Some False)" by blast
    then show ?thesis
    proof
      assume a: "k \<in> set (dict_keys (objects t)) \<and> map_of (counted t1) k = map_of (counted t) k"
      with flags show ?thesis by (metis option.inject)
    next
      assume b: "nextObjectID t \<le> k \<and> map_of (counted t1) k = Some False"
      with below have "k \<notin> set (dict_keys (objects t))" by force
      from absent [OF this] b show ?thesis by simp
    qed
  qed
  show nc: "newly_counted t t2 =
           filter (\<lambda>k. map_of (counted t1) k = Some False \<and> map_of (counted t2) k = Some True)
             (dict_keys (counted t1))"
    unfolding newly_counted_def keys by (rule filter_cong [OF refl]) (rule eqv)
  show "distinct (newly_counted t t2)"
    unfolding nc using d1 ck1 by simp
  show "\<forall>k \<in> set (newly_counted t t2). \<not> settled t k \<and> settled t2 k"
  proof
    fix k assume "k \<in> set (newly_counted t t2)"
    then have k1: "k \<in> set (dict_keys (objects t1))" and f1: "map_of (counted t1) k = Some False"
      and f2: "map_of (counted t2) k = Some True"
      unfolding nc using ck1 by auto
    from k1 old_new f1 have "map_of (counted t) k = Some False \<or> nextObjectID t \<le> k" by force
    then have "\<not> settled t k" by (auto simp: settled_def)
    moreover from k1 below1 f(1) f2 have "settled t2 k" by (simp add: settled_def)
    ultimately show "\<not> settled t k \<and> settled t2 k" ..
  qed
qed

lemma run_frames_append:
  "run_frames step fs1 s = (None, s1) \<Longrightarrow>
   run_frames step (fs1 @ fs2) s = run_frames step fs2 s1 \<and>
   counted_in_frames step trk (fs1 @ fs2) s =
     counted_in_frames step trk fs1 s @ counted_in_frames step trk fs2 s1"
proof (induction fs1 arbitrary: s)
  case Nil
  then show ?case by simp
next
  case (Cons f fs1)
  obtain e s' where st: "step f s = (e, s')" by (cases "step f s")
  show ?case
  proof (cases e)
    case None
    with Cons.prems st have "run_frames step fs1 s' = (None, s1)" by simp
    from Cons.IH [OF this] st None show ?thesis by simp
  next
    case (Some a)
    with Cons.prems st show ?thesis by simp
  qed
qed

lemma run_frames_counted:
  fixes step :: "frame \<Rightarrow> 's \<Rightarrow> py_error option \<times> 's" and trk :: "'s \<Rightarrow> CentroidTracker"
    and \<mu> :: "'s \<Rightarrow> int"
  assumes good: "\<And>f s. tracker_inv (trk s) \<Longrightarrow>
      \<exists>s'. step f s = (None, s') \<and> tracker_inv (trk s') \<and>
        (\<forall>k. settled (trk s) k \<longrightarrow> settled (trk s') k) \<and>
        (\<forall>k \<in> set (newly_counted (trk s) (trk s')). \<not> settled (trk s) k \<and> settled (trk s') k) \<and>
        distinct (newly_counted (trk s) (trk s')) \<and>
        \<mu> s' = \<mu> s + int (length (newly_counted (trk s) (trk s')))"
    and "tracker_inv (trk s)"
  shows "\<exists>s'. run_frames step fs s = (None, s') \<and> tracker_inv (trk s') \<and>
        (\<forall>k. settled (trk s) k \<longrightarrow> settled (trk s') k) \<and>
        (\<forall>k \<in> set (counted_in_frames step trk fs s). \<not> settled (trk s) k \<and> settled (trk s') k) \<and>
        distinct (counted_in_frames step trk fs s) \<and>
        \<mu> s' = \<mu> s + int (length (counted_in_frames step trk fs s))"
  using assms(2)
proof (induction fs arbitrary: s)
  case Nil
  then show ?case by simp
next
  case (Cons f fs)
  from good [OF Cons.prems, of f] obtain s1 where
    st: "step f s = (None, s1)" and inv1: "tracker_inv (trk s1)"
    and p1: "\<forall>k. settled (trk s) k \<longrightarrow> settled (trk s1) k"
    and n1: "\<forall>k \<in> set (newly_counted (trk s) (trk s1)). \<not> settled (trk s) k \<and> settled (trk s1) k"
    and d1: "distinct (newly_counted (trk s) (trk s1))"
    and m1: "\<mu> s1 = \<mu> s + int (length (newly_counted (trk s) (trk s1)))"
    by blast
  from Cons.IH [OF inv1] obtain s' where
    run: "run_frames step fs s1 = (None, s')" and inv': "tracker_inv (trk s')"
    and p': "\<forall>k. settled (trk s1) k \<longrightarrow> settled (trk s') k"
    and n': "\<forall>k \<in> set (counted_in_frames step trk fs s1). \<not> settled (trk s1) k \<and> settled (trk s') k"
    and d': "distinct (counted_in_frames step trk fs s1)"
    and m': "\<mu> s' = \<mu> s1 + int (length (counted_in_frames step trk fs s1))"
    by blast
  have c: "counted_in_frames step trk (f # fs) s =
             newly_counted (trk s) (trk s1) @ counted_in_frames step trk fs s1"
    using st by simp
  have "run_frames step (f # fs) s = (None, s')" using st run by simp
  moreover have "\<forall>k. settled (trk s) k \<longrightarrow> settled (trk s') k" using p1 p' by blast
  moreover have "\<forall>k \<in> set (counted_in_frames step trk (f # fs) s).
                   \<not> settled (trk s) k \<and> settled (trk s') k"
    unfolding c using n1 n' p1 p' by auto
  moreover have "distinct (counted_in_frames step trk (f # fs) s)"
    unfolding c using d1 d' n1 n' by auto
  moreover have "\<mu> s' = \<mu> s + int (length (counted_in_frames step trk (f # fs) s))"
    unfolding c using m1 m' by simp
  ultimately show ?case using inv' by blast
qed

lemma directional_frame_good:
  assumes "tracker_inv (tracker s)"
  shows "\<exists>s'. directional_frame url ot lo alg m ri ss f s = (None, s') \<and> tracker_inv (tracker s') \<and>
        (\<forall>k. settled (tracker s) k \<longrightarrow> settled (tracker s') k) \<and>
        (\<forall>k \<in> set (newly_counted (tracker s) (tracker s')).
            \<not> settled (tracker s) k \<and> settled (tracker s') k) \<and>
        distinct (newly_counted (tracker s) (tracker s')) \<and>
        fst (dir_counts s') + snd (dir_counts s') =
          fst (dir_counts s) + snd (dir_counts s) +
          int (length (newly_counted (tracker s) (tracker s')))"
proof -
  obtain pt1 pt2 where lp: "line_points lo (frame_height f) (frame_width f) = (pt1, pt2)"
    by (cases "line_points lo (frame_height f) (frame_width f)")
  from update_ok [OF assms, of "current_centroids f"] obtain t1 where
    u: "update (current_centroids f) (tracker s) = Inr t1" and inv1: "tracker_inv t1"
    and ev: "evolves (tracker s) t1"
    by blast
  from inv1 have d: "distinct (map fst (objects t1))"
    and sub: "set (map fst (objects t1)) \<subseteq> set (dict_keys (counted t1))"
    and ck: "dict_keys (counted t1) = map fst (objects t1)"
    by (simp_all add: tracker_inv_def dict_keys_def)
  from for_each_keep_marks [of "evaluate_object lo alg m pt1 pt2" "\<lambda>n. fst n + snd n",
      OF evaluate_object_marks d sub, of "dir_counts s"]
  obtain t2 n2 where
    loop: "for_each_keep (evaluate_object lo alg m pt1 pt2) (objects t1) (t1, dir_counts s) =
             (None, (t2, n2))"
    and same: "same_but_counted t1 t2"
    and keys: "dict_keys (counted t2) = dict_keys (counted t1)"
    and flags: "\<forall>k. map_of (counted t2) k = map_of (counted t1) k \<or>
                (k \<in> set (map fst (objects t1)) \<and> map_of (counted t1) k = Some False \<and>
                 map_of (counted t2) k = Some True)"
    and cnt: "fst n2 + snd n2 = fst (dir_counts s) + snd (dir_counts s) +
                int (length (filter (\<lambda>k. map_of (counted t1) k = Some False \<and>
                                          map_of (counted t2) k = Some True) (map fst (objects t1))))"
    by blast
  from flags have flags': "\<forall>k. map_of (counted t2) k = map_of (counted t1) k \<or>
                 (map_of (counted t1) k = Some False \<and> map_of (counted t2) k = Some True)"
    by blast
  note fm = frame_marks [OF assms inv1 ev same keys flags']
  have "\<exists>s'. directional_frame url ot lo alg m ri ss f s = (None, s') \<and>
          tracker s' = t2 \<and> dir_counts s' = n2"
    using lp u loop
    by (cases "ri \<le> now f - last_record_time s") (simp_all add: directional_frame_def Let_def)
  then obtain s' where s': "directional_frame url ot lo alg m ri ss f s = (None, s')"
    "tracker s' = t2" "dir_counts s' = n2"
    by blast
  from cnt fm(3) ck have "fst n2 + snd n2 = fst (dir_counts s) + snd (dir_counts s) +
      int (length (newly_counted (tracker s) t2))" by simp
  with s' fm(1,2,4,5) show ?thesis by auto
qed

lemma unique_frame_good:
  assumes "tracker_inv (u_tracker s)"
  shows "\<exists>s'. unique_frame url ot ri f s = (None, s') \<and> tracker_inv (u_tracker s') \<and>
        (\<forall>k. settled (u_tracker s) k \<longrightarrow> settled (u_tracker s') k) \<and>
        (\<forall>k \<in> set (newly_counted (u_tracker s) (u_tracker s')).
            \<not> settled (u_tracker s) k \<and> settled (u_tracker s') k) \<and>
        distinct (newly_counted (u_tracker s) (u_tracker s')) \<and>
        total_count s' = total_count s +
          int (length (newly_counted (u_tracker s) (u_tracker s')))"
proof -
  from update_ok [OF assms, of "current_centroids f"] obtain t1 where
    u: "update (current_centroids f) (u_tracker s) = Inr t1" and inv1: "tracker_inv t1"
    and ev: "evolves (u_tracker s) t1"
    by blast
  from inv1 have d: "distinct (map fst (objects t1))"
    and sub: "set (map fst (objects t1)) \<subseteq> set (dict_keys (counted t1))"
    and ck: "dict_keys (counted t1) = map fst (objects t1)"
    by (simp_all add: tracker_inv_def dict_keys_def)
  from for_each_keep_marks [of count_unique "\<lambda>n. n", OF count_unique_marks d sub, of "total_count s"]
  obtain t2 n2 where
    loop: "for_each_keep count_unique (objects t1) (t1, total_count s) = (None, (t2, n2))"
    and same: "same_but_counted t1 t2"
    and keys: "dict_keys (counted t2) = dict_keys (counted t1)"
    and flags: "\<forall>k. map_of (counted t2) k = map_of (counted t1) k \<or>
                (k \<in> set (map fst (objects t1)) \<and> map_of (counted t1) k = Some False \<and>
                 map_of (counted t2) k = Some True)"
    and cnt: "n2 = total_count s +
                int (length (filter (\<lambda>k. map_of (counted t1) k = Some False \<and>
                                          map_of (counted t2) k = Some True) (map fst (objects t1))))"
    by blast
  from flags have flags': "\<forall>k. map_of (counted t2) k = map_of (counted t1) k \<or>
                 (map_of (counted t1) k = Some False \<and> map_of (counted t2) k = Some True)"
    by blast
  note fm = frame_marks [OF assms inv1 ev same keys flags']
  have "\<exists>s'. unique_frame url ot ri f s = (None, s') \<and>
          u_tracker s' = t2 \<and> total_count s' = n2"
    using u loop
    by (cases "ri \<le> now f - u_last_record_time s") (simp_all add: unique_frame_def Let_def)
  then obtain s' where s': "unique_frame url ot ri f s = (None, s')"
    "u_tracker s' = t2" "total_count s' = n2"
    by blast
  from cnt fm(3) ck have "n2 = total_count s + int (length (newly_counted (u_tracker s) t2))"
    by simp
  with s' fm(1,2,4,5) show ?thesis by auto
qed

text \<open>
  C8. Take any frames, in two parts, processed from the initial state of either stream
  function. No frame raises. An identity whose \<open>counted\<close> flag is true after the first part
  never has a false flag after the second: the flag does not go back, and a deregistered
  identity does not return. The identities whose flag becomes true, listed frame by frame
  over the whole run, are pairwise distinct, and their number is the sum of the two
  counters in the directional mode and \<open>total_count\<close> in the unique mode: an identity
  contributes at most one counted event, however often its centroid crosses the line.
\<close>

theorem counted_at_most_once:
  fixes rtsp_url object_type alg :: string and lo :: line_options
    and min_disp record_interval session_start t0 :: int and db :: database
    and fs1 fs2 :: "frame list"
  defines "dstep \<equiv> directional_frame rtsp_url object_type lo alg min_disp record_interval session_start"
  defines "ustep \<equiv> unique_frame rtsp_url object_type record_interval"
  defines "d0 \<equiv> \<lparr> tracker = CentroidTracker_init 40, dir_counts = (0, 0),
                   last_record_time = t0, store = db \<rparr>"
  defines "u0 \<equiv> \<lparr> u_tracker = CentroidTracker_init 40, total_count = 0,
                   u_last_record_time = t0, u_store = db \<rparr>"
  shows "(\<exists>d1 d2. run_frames dstep fs1 d0 = (None, d1) \<and> run_frames dstep fs2 d1 = (None, d2) \<and>
            (\<forall>k. map_of (counted (tracker d1)) k = Some True \<longrightarrow>
                 map_of (counted (tracker d2)) k \<noteq> Some False) \<and>
            distinct (counted_in_frames dstep tracker (fs1 @ fs2) d0) \<and>
            fst (dir_counts d2) + snd (dir_counts d2) =
              int (length (counted_in_frames dstep tracker (fs1 @ fs2) d0))) \<and>
         (\<exists>u1 u2. run_frames ustep fs1 u0 = (None, u1) \<and> run_frames ustep fs2 u1 = (None, u2) \<and>
            (\<forall>k. map_of (counted (u_tracker u1)) k = Some True \<longrightarrow>
                 map_of (counted (u_tracker u2)) k \<noteq> Some False) \<and>
            distinct (counted_in_frames ustep u_tracker (fs1 @ fs2) u0) \<and>
            total_count u2 = int (length (counted_in_frames ustep u_tracker (fs1 @ fs2) u0)))"
proof
  have i0: "tracker_inv (tracker d0)" by (simp add: d0_def inv_init)
  note good = directional_frame_good [of _ rtsp_url object_type lo alg min_disp record_interval
      session_start, folded dstep_def]
  from run_frames_counted [of tracker dstep "\<lambda>s. fst (dir_counts s) + snd (dir_counts s)", OF good i0, of fs1]
  obtain d1 where r1: "run_frames dstep fs1 d0 = (None, d1)" and i1: "tracker_inv (tracker d1)"
    by blast
  from run_frames_counted [of tracker dstep "\<lambda>s. fst (dir_counts s) + snd (dir_counts s)", OF good i1, of fs2]
  obtain d2 where r2: "run_frames dstep fs2 d1 = (None, d2)"
    and p: "\<forall>k. settled (tracker d1) k \<longrightarrow> settled (tracker d2) k"
    by blast
  from run_frames_append [OF r1, of fs2] r2
  have r12: "run_frames dstep (fs1 @ fs2) d0 = (None, d2)" by simp
  from run_frames_counted [of tracker dstep "\<lambda>s. fst (dir_counts s) + snd (dir_counts s)", OF good i0, of "fs1 @ fs2"] r12
  have dis: "distinct (counted_in_frames dstep tracker (fs1 @ fs2) d0)"
    and cnt: "fst (dir_counts d2) + snd (dir_counts d2) =
              int (length (counted_in_frames dstep tracker (fs1 @ fs2) d0))"
    by (auto simp: d0_def)
  have fl: "\<forall>k. map_of (counted (tracker d1)) k = Some True \<longrightarrow>
                 map_of (counted (tracker d2)) k \<noteq> Some False"
  proof (intro allI impI)
    fix k assume t: "map_of (counted (tracker d1)) k = Some True"
    then have "k \<in> set (dict_keys (counted (tracker d1)))"
      using map_of_None_keys [of "counted (tracker d1)" k] by auto
    with i1 have "k < nextObjectID (tracker d1)" by (simp add: tracker_inv_def)
    with t have "settled (tracker d1) k" by (simp add: settled_def)
    with p have "settled (tracker d2) k" by blast
    then show "map_of (counted (tracker d2)) k \<noteq> Some False" by (simp add: settled_def)
  qed
  from r1 r2 fl dis cnt
  show "\<exists>d1 d2. run_frames dstep fs1 d0 = (None, d1) \<and> run_frames dstep fs2 d1 = (None, d2) \<and>
            (\<forall>k. map_of (counted (tracker d1)) k = Some True \<longrightarrow>
                 map_of (counted (tracker d2)) k \<noteq> Some False) \<and>
            distinct (counted_in_frames dstep tracker (fs1 @ fs2) d0) \<and>
            fst (dir_counts d2) + snd (dir_counts d2) =
              int (length (counted_in_frames dstep tracker (fs1 @ fs2) d0))"
    by blast
next
  have i0: "tracker_inv (u_tracker u0)" by (simp add: u0_def inv_init)
  note good = unique_frame_good [of _ rtsp_url object_type record_interval, folded ustep_def]
  from run_frames_counted [of u_tracker ustep total_count, OF good i0, of fs1]
  obtain u1 where r1: "run_frames ustep fs1 u0 = (None, u1)" and i1: "tracker_inv (u_tracker u1)"
    by blast
  from run_frames_counted [of u_tracker ustep total_count, OF good i1, of fs2]
  obtain u2 where r2: "run_frames ustep fs2 u1 = (None, u2)"
    and p: "\<forall>k. settled (u_tracker u1) k \<longrightarrow> settled (u_tracker u2) k"
    by blast
  from run_frames_append [OF r1, of fs2] r2
  have r12: "run_frames ustep (fs1 @ fs2) u0 = (None, u2)" by simp
  from run_frames_counted [of u_tracker ustep total_count, OF good i0, of "fs1 @ fs2"] r12
  have dis: "distinct (counted_in_frames ustep u_tracker (fs1 @ fs2) u0)"
    and cnt: "total_count u2 = int (length (counted_in_frames ustep u_tracker (fs1 @ fs2) u0))"
    by (auto simp: u0_def)
  have fl: "\<forall>k. map_of (counted (u_tracker u1)) k = Some True \<longrightarrow>
                 map_of (counted (u_tracker u2)) k \<noteq> Some False"
  proof (intro allI impI)
    fix k assume t: "map_of (counted (u_tracker u1)) k = Some True"
    then have "k \<in> set (dict_keys (counted (u_tracker u1)))"
      using map_of_None_keys [of "counted (u_tracker u1)" k] by auto
    with i1 have "k < nextObjectID (u_tracker u1)" by (simp add: tracker_inv_def)
    with t have "settled (u_tracker u1) k" by (simp add: settled_def)
    with p have "settled (u_tracker u2) k" by blast
    then show "map_of (counted (u_tracker u2)) k \<noteq> Some False" by (simp add: settled_def)
  qed
  from r1 r2 fl dis cnt
  show "\<exists>u1 u2. run_frames ustep fs1 u0 = (None, u1) \<and> run_frames ustep fs2 u1 = (None, u2) \<and>
            (\<forall>k. map_of (counted (u_tracker u1)) k = Some True \<longrightarrow>
                 map_of (counted (u_tracker u2)) k \<noteq> Some False) \<and>
            distinct (counted_in_frames ustep u_tracker (fs1 @ fs2) u0) \<and>
            total_count u2 = int (length (counted_in_frames ustep u_tracker (fs1 @ fs2) u0))"
    by blast
qed

theorem counted_at_most_once_witness:
  "(\<exists>d1 d2.
      run_frames (directional_frame ''rtsp://cam'' ''car'' (horizontal_line (1 / 2)) ''standard'' 10 60 0)
        [cam_view [(50, 110)] 10 False, cam_view [(50, 95)] 20 False]
        \<lparr> tracker = CentroidTracker_init 40, dir_counts = (0, 0), last_record_time = 0, store = [] \<rparr>
        = (None, d1) \<and>
      run_frames (directional_frame ''rtsp://cam'' ''car'' (horizontal_line (1 / 2)) ''standard'' 10 60 0)
        [cam_view [(50, 105)] 30 False] d1 = (None, d2) \<and>
      map_of (counted (tracker d1)) 0 = Some True \<and>
      map_of (counted (tracker d2)) 0 \<noteq> Some False \<and>
      dir_counts d1 = (1, 0) \<and> fst (dir_counts d2) + snd (dir_counts d2) = 1) \<and>
   (\<exists>u1 u2.
      run_frames (unique_frame ''rtsp://cam'' ''car'' 60)
        [cam_view [(50, 110)] 10 False, cam_view [(50, 95)] 20 False]
        \<lparr> u_tracker = CentroidTracker_init 40, total_count = 0, u_last_record_time = 0, u_store = [] \<rparr>
        = (None, u1) \<and>
      run_frames (unique_frame ''rtsp://cam'' ''car'' 60)
        [cam_view [(50, 105)] 30 False] u1 = (None, u2) \<and>
      map_of (counted (u_tracker u1)) 0 = Some True \<and>
      map_of (counted (u_tracker u2)) 0 \<noteq> Some False \<and>
      total_count u1 = 1 \<and> total_count u2 = 1)"
proof -
  let ?dstep = "directional_frame ''rtsp://cam'' ''car'' (horizontal_line (1 / 2)) ''standard'' 10 60 0"
  let ?ustep = "unique_frame ''rtsp://cam'' ''car'' 60"
  let ?d0 = "\<lparr> tracker = CentroidTracker_init 40, dir_counts = (0, 0), last_record_time = 0,
               store = ([] :: database) \<rparr>"
  let ?u0 = "\<lparr> u_tracker = CentroidTracker_init 40, total_count = 0, u_last_record_time = 0,
               u_store = ([] :: database) \<rparr>"
  let ?fs1 = "[cam_view [(50, 110)] 10 False, cam_view [(50, 95)] 20 False]"
  let ?fs2 = "[cam_view [(50, 105)] 30 False]"
  note inst = counted_at_most_once [of "''rtsp://cam''" "''car''" "horizontal_line (1 / 2)"
      "''standard''" 10 60 0 ?fs1 0 "[]" ?fs2]
  from inst [THEN conjunct1] obtain d1 d2 where
    r1: "run_frames ?dstep ?fs1 ?d0 = (None, d1)" and r2: "run_frames ?dstep ?fs2 d1 = (None, d2)"
    and fl: "\<forall>k. map_of (counted (tracker d1)) k = Some True \<longrightarrow>
                 map_of (counted (tracker d2)) k \<noteq> Some False"
    and cnt: "fst (dir_counts d2) + snd (dir_counts d2) =
              int (length (counted_in_frames ?dstep tracker (?fs1 @ ?fs2) ?d0))"
    by blast
  have "map_of (counted (tracker (snd (run_frames ?dstep ?fs1 ?d0)))) 0 = Some True"
    "dir_counts (snd (run_frames ?dstep ?fs1 ?d0)) = (1, 0)"
    by code_simp+
  with r1 have a: "map_of (counted (tracker d1)) 0 = Some True" "dir_counts d1 = (1, 0)" by simp_all
  from fl a(1) have b: "map_of (counted (tracker d2)) 0 \<noteq> Some False" by blast
  have "counted_in_frames ?dstep tracker (?fs1 @ ?fs2) ?d0 = [0]" by code_simp
  with cnt have c: "fst (dir_counts d2) + snd (dir_counts d2) = 1" by simp
  from inst [THEN conjunct2] obtain u1 u2 where
    s1: "run_frames ?ustep ?fs1 ?u0 = (None, u1)" and s2: "run_frames ?ustep ?fs2 u1 = (None, u2)"
    and ufl: "\<forall>k. map_of (counted (u_tracker u1)) k = Some True \<longrightarrow>
                 map_of (counted (u_tracker u2)) k \<noteq> Some False"
    and ucnt: "total_count u2 = int (length (counted_in_frames ?ustep u_tracker (?fs1 @ ?fs2) ?u0))"
    by blast
  have "map_of (counted (u_tracker (snd (run_frames ?ustep ?fs1 ?u0)))) 0 = Some True"
    "total_count (snd (run_frames ?ustep ?fs1 ?u0)) = 1"
    by code_simp+
  with s1 have ua: "map_of (counted (u_tracker u1)) 0 = Some True" "total_count u1 = 1" by simp_all
  from ufl ua(1) have ub: "map_of (counted (u_tracker u2)) 0 \<noteq> Some False" by blast
  have "counted_in_frames ?ustep u_tracker (?fs1 @ ?fs2) ?u0 = [0]" by code_simp
  with ucnt have uc: "total_count u2 = 1" by simp
  from r1 r2 a b c s1 s2 ua ub uc show ?thesis by blast
qed

section \<open>Records of a session\<close>

text \<open>
  C1 fails on the code. In the unique mode each periodic record is written under
  \<^verbatim>\<open>record_start\<close>, the time of the previous record, not under the session's start: a
  session started at 0 with records due at 60 and 120 and ended by the key q at 130
  leaves two rows, under the keys 0 and 60. In the directional mode the periodic records
  share the key taken in \<^verbatim>\<open>run_stream_directional\<close>, but the final record is written
  under the reading that \<^verbatim>\<open>launch_analysis_and_flask\<close> took before the stream was opened:
  when the two readings differ (here 0 and 2) the session again leaves two rows.
\<close>

theorem session_records_under_several_keys:
  "launch_analysis_and_flask (cam_config ''unique'')
       (cam_run 0 0 [cam_frame [(50, 110)] 60 False, cam_frame [(50, 95)] 120 False,
                     cam_frame [(50, 95)] 130 True] 130) [] =
     Some [((''rtsp://cam'', 0),
            \<lparr> row_object_type = ''car'', row_direction1 = 0, row_direction2 = 0,
              row_total = 1, row_session_end = 130 \<rparr>),
           ((''rtsp://cam'', 60),
            \<lparr> row_object_type = ''car'', row_direction1 = 0, row_direction2 = 0,
              row_total = 1, row_session_end = 120 \<rparr>)] \<and>
   launch_analysis_and_flask (cam_config ''directional'')
       (cam_run 0 2 [cam_frame [(50, 110)] 62 False, cam_frame [(50, 95)] 122 False,
                     cam_frame [(50, 95)] 130 True] 130) [] =
     Some [((''rtsp://cam'', 2),
            \<lparr> row_object_type = ''car'', row_direction1 = 1, row_direction2 = 0,
              row_total = 1, row_session_end = 122 \<rparr>),
           ((''rtsp://cam'', 0),
            \<lparr> row_object_type = ''car'', row_direction1 = 1, row_direction2 = 0,
              row_total = 1, row_session_end = 130 \<rparr>)]"
proof -
  have a: "launch_analysis_and_flask (cam_config ''unique'')
       (cam_run 0 0 [cam_frame [(50, 110)] 60 False, cam_frame [(50, 95)] 120 False,
                     cam_frame [(50, 95)] 130 True] 130) [] =
     Some [((''rtsp://cam'', 0),
            \<lparr> row_object_type = ''car'', row_direction1 = 0, row_direction2 = 0,
              row_total = 1, row_session_end = 130 \<rparr>),
           ((''rtsp://cam'', 60),
            \<lparr> row_object_type = ''car'', row_direction1 = 0, row_direction2 = 0,
              row_total = 1, row_session_end = 120 \<rparr>)]"
    by code_simp
  have b: "launch_analysis_and_flask (cam_config ''directional'')
       (cam_run 0 2 [cam_frame [(50, 110)] 62 False, cam_frame [(50, 95)] 122 False,
                     cam_frame [(50, 95)] 130 True] 130) [] =
     Some [((''rtsp://cam'', 2),
            \<lparr> row_object_type = ''car'', row_direction1 = 1, row_direction2 = 0,
              row_total = 1, row_session_end = 122 \<rparr>),
           ((''rtsp://cam'', 0),
            \<lparr> row_object_type = ''car'', row_direction1 = 1, row_direction2 = 0,
              row_total = 1, row_session_end = 130 \<rparr>)]"
    by code_simp
  from a b show ?thesis by (rule conjI)
qed

text \<open>
  C3 fails on the code in the directional mode. An object crosses the line upwards, a
  record with total 1 is written at 70, and the next read of the stream raises: the
  function returns \<^verbatim>\<open>(0,0), 0\<close> and the final upsert overwrites the session's row with
  zeros. The same session ended by the key q instead keeps the count 1, and so does the
  unique mode on the same failure.
\<close>

theorem decode_failure_discards_directional_counts:
  "launch_analysis_and_flask (cam_config ''directional'')
       (cam_run 0 0 [cam_frame [(50, 110)] 10 False, cam_frame [(50, 95)] 70 False,
                     DecodeError] 80) [] =
     Some [((''rtsp://cam'', 0),
            \<lparr> row_object_type = ''car'', row_direction1 = 0, row_direction2 = 0,
              row_total = 0, row_session_end = 80 \<rparr>)] \<and>
   launch_analysis_and_flask (cam_config ''directional'')
       (cam_run 0 0 [cam_frame [(50, 110)] 10 False, cam_frame [(50, 95)] 70 False,
                     cam_frame [(50, 95)] 75 True] 80) [] =
     Some [((''rtsp://cam'', 0),
            \<lparr> row_object_type = ''car'', row_direction1 = 1, row_direction2 = 0,
              row_total = 1, row_session_end = 80 \<rparr>)] \<and>
   launch_analysis_and_flask (cam_config ''unique'')
       (cam_run 0 0 [cam_frame [(50, 110)] 10 False, cam_frame [(50, 95)] 70 False,
                     DecodeError] 80) [] =
     Some [((''rtsp://cam'', 0),
            \<lparr> row_object_type = ''car'', row_direction1 = 0, row_direction2 = 0,
              row_total = 1, row_session_end = 80 \<rparr>)]"
proof -
  have a: "launch_analysis_and_flask (cam_config ''directional'')
       (cam_run 0 0 [cam_frame [(50, 110)] 10 False, cam_frame [(50, 95)] 70 False,
                     DecodeError] 80) [] =
     Some [((''rtsp://cam'', 0),
            \<lparr> row_object_type = ''car'', row_direction1 = 0, row_direction2 = 0,
              row_total = 0, row_session_end = 80 \<rparr>)]"
    by code_simp
  have b: "launch_analysis_and_flask (cam_config ''directional'')
       (cam_run 0 0 [cam_frame [(50, 110)] 10 False, cam_frame [(50, 95)] 70 False,
                     cam_frame [(50, 95)] 75 True] 80) [] =
     Some [((''rtsp://cam'', 0),
            \<lparr> row_object_type = ''car'', row_direction1 = 1, row_direction2 = 0,
              row_total = 1, row_session_end = 80 \<rparr>)]"
    by code_simp
  have c: "launch_analysis_and_flask (cam_config ''unique'')
       (cam_run 0 0 [cam_frame [(50, 110)] 10 False, cam_frame [(50, 95)] 70 False,
                     DecodeError] 80) [] =
     Some [((''rtsp://cam'', 0),
            \<lparr> row_object_type = ''car'', row_direction1 = 0, row_direction2 = 0,
              row_total = 1, row_session_end = 80 \<rparr>)]"
    by code_simp
  from a b c show ?thesis by blast
qed

section \<open>Sequences of calls\<close>

lemma calls_ok:
  "tracker_inv t \<Longrightarrow> \<exists>t'. for_each call cs t = Inr t' \<and> tracker_inv t' \<and> evolves t t'"
proof (induction cs arbitrary: t)
  case Nil
  then show ?case by (simp add: evolves_refl)
next
  case (Cons c cs)
  have "\<exists>t1. call c t = Inr t1 \<and> tracker_inv t1 \<and> evolves t t1"
  proof (cases c)
    case (Register x)
    with Cons.prems show ?thesis by (simp add: inv_register evolves_register)
  next
    case (Deregister k)
    with Cons.prems show ?thesis
      using deregister_eq [of t k] inv_deregister [of t k] evolves_deregister [of t k] by simp
  next
    case (Update xs)
    with Cons.prems show ?thesis using update_ok [of t xs] by simp
  qed
  then obtain t1 where t1: "call c t = Inr t1" "tracker_inv t1" "evolves t t1" by blast
  from Cons.IH [OF t1(2)] obtain t' where "for_each call cs t1 = Inr t'" "tracker_inv t'" "evolves t1 t'"
    by blast
  with t1 show ?case by (auto intro: evolves_trans)
qed

lemma inv_same_keys: "tracker_inv t \<Longrightarrow> same_keys t"
  by (simp add: tracker_inv_def same_keys_def)

section \<open>Identities\<close>

text \<open>
  C9. Take a fresh tracker, any sequence of register, deregister and update calls, and then
  any further such sequence. No call raises. The identity counter is never negative and
  never goes down; every live identity is a non-negative integer below the counter; a
  registration assigns exactly the counter, which was not live, and moves the counter up by
  one, so successive registrations assign strictly increasing identities; and an identity
  that is live after the second sequence and was not live before it is at least the counter
  of that moment: an identity that had been assigned and deregistered is never assigned
  again.
\<close>

theorem identities_strictly_increase_never_reused:
  "\<exists>s1 s2. for_each call cs1 (CentroidTracker_init m) = Inr s1 \<and> for_each call cs2 s1 = Inr s2 \<and>
     0 \<le> nextObjectID s1 \<and> nextObjectID s1 \<le> nextObjectID s2 \<and>
     (\<forall>k \<in> set (dict_keys (objects s1)). 0 \<le> k \<and> k < nextObjectID s1) \<and>
     nextObjectID s1 \<notin> set (dict_keys (objects s1)) \<and>
     map_of (objects (register c s1)) (nextObjectID s1) = Some c \<and>
     nextObjectID (register c s1) = nextObjectID s1 + 1 \<and>
     (\<forall>k \<in> set (dict_keys (objects s2)).
        k \<in> set (dict_keys (objects s1)) \<or> nextObjectID s1 \<le> k)"
proof -
  obtain s1 where s1: "for_each call cs1 (CentroidTracker_init m) = Inr s1" "tracker_inv s1"
    using calls_ok [OF inv_init, of cs1 m] by blast
  obtain s2 where s2: "for_each call cs2 s1 = Inr s2" "evolves s1 s2"
    using calls_ok [OF s1(2), of cs2] by blast
  from s1(2) have a: "0 \<le> nextObjectID s1"
    "\<forall>k \<in> set (dict_keys (objects s1)). 0 \<le> k \<and> k < nextObjectID s1"
    by (simp_all add: tracker_inv_def)
  from a(2) have b: "nextObjectID s1 \<notin> set (dict_keys (objects s1))" by auto
  have c: "map_of (objects (register c s1)) (nextObjectID s1) = Some c"
    "nextObjectID (register c s1) = nextObjectID s1 + 1"
    by (simp_all add: register_def update_conv')
  from s2(2) have d: "nextObjectID s1 \<le> nextObjectID s2"
    "\<forall>k \<in> set (dict_keys (objects s2)). k \<in> set (dict_keys (objects s1)) \<or> nextObjectID s1 \<le> k"
    by (auto simp: evolves_def)
  from s1(1) s2(1) a b c d show ?thesis by blast
qed

theorem identities_strictly_increase_never_reused_witness:
  "\<exists>s1 s2. for_each call [Update [(0, 0), (10, 0)], Deregister 1] (CentroidTracker_init 40) = Inr s1 \<and>
     for_each call [Update [(4, 0), (100, 0)]] s1 = Inr s2 \<and>
     dict_keys (objects s1) = [0] \<and> nextObjectID s1 = 2 \<and>
     dict_keys (objects s2) = [0, 2] \<and> nextObjectID s2 = 3 \<and>
     (0 \<in> set (dict_keys (objects s1)) \<or> nextObjectID s1 \<le> 0) \<and>
     (2 \<in> set (dict_keys (objects s1)) \<or> nextObjectID s1 \<le> 2)"
proof -
  from identities_strictly_increase_never_reused
    [of "[Update [(0, 0), (10, 0)], Deregister 1]" 40 "[Update [(4, 0), (100, 0)]]" "(0, 0)"]
  obtain s1 s2 where
    s1: "for_each call [Update [(0, 0), (10, 0)], Deregister 1] (CentroidTracker_init 40) = Inr s1"
    and s2: "for_each call [Update [(4, 0), (100, 0)]] s1 = Inr s2"
    and new: "\<forall>k \<in> set (dict_keys (objects s2)).
                k \<in> set (dict_keys (objects s1)) \<or> nextObjectID s1 \<le> k"
    by blast
  have e1: "for_each call [Update [(0, 0), (10, 0)], Deregister 1] (CentroidTracker_init 40) =
      Inr \<lparr> nextObjectID = 2, objects = [(0, (0, 0))], disappeared = [(0, 0)],
            previousCentroids = [(0, (0, 0))], counted = [(0, False)], maxDisappeared = 40 \<rparr>"
    by code_simp
  with s1 have v1: "s1 = \<lparr> nextObjectID = 2, objects = [(0, (0, 0))], disappeared = [(0, 0)],
            previousCentroids = [(0, (0, 0))], counted = [(0, False)], maxDisappeared = 40 \<rparr>"
    by simp
  have e2: "for_each call [Update [(4, 0), (100, 0)]]
       \<lparr> nextObjectID = 2, objects = [(0, (0, 0))], disappeared = [(0, 0)],
            previousCentroids = [(0, (0, 0))], counted = [(0, False)], maxDisappeared = 40 \<rparr> =
      Inr \<lparr> nextObjectID = 3, objects = [(0, (4, 0)), (2, (100, 0))], disappeared = [(0, 0), (2, 0)],
            previousCentroids = [(0, (0, 0)), (2, (100, 0))], counted = [(0, False), (2, False)],
            maxDisappeared = 40 \<rparr>"
    by code_simp
  with s2 v1 have v2: "s2 = \<lparr> nextObjectID = 3, objects = [(0, (4, 0)), (2, (100, 0))],
            disappeared = [(0, 0), (2, 0)],
            previousCentroids = [(0, (0, 0)), (2, (100, 0))], counted = [(0, False), (2, False)],
            maxDisappeared = 40 \<rparr>"
    by simp
  have k: "dict_keys (objects s1) = [0]" "nextObjectID s1 = 2" "dict_keys (objects s2) = [0, 2]"
    "nextObjectID s2 = 3"
    by (simp_all add: v1 v2 dict_keys_def)
  from new k have "(0 \<in> set (dict_keys (objects s1)) \<or> nextObjectID s1 \<le> 0) \<and>
     (2 \<in> set (dict_keys (objects s1)) \<or> nextObjectID s1 \<le> 2)"
    by simp
  with s1 s2 k show ?thesis by blast
qed

section \<open>The dictionaries stay aligned\<close>

text \<open>
  C10. After any sequence of register, deregister and update calls on a fresh tracker, no
  call has raised and \<open>objects\<close>, \<open>disappeared\<close>, \<open>previousCentroids\<close> and \<open>counted\<close> have the
  same key set; every identity of \<open>objects\<close> (the mapping that \<open>update\<close> returns) has a
  \<open>counted\<close> flag, a previous centroid and a disappearance count.
\<close>

theorem dictionaries_share_keys:
  "\<exists>t. for_each call cs (CentroidTracker_init m) = Inr t \<and> same_keys t \<and>
     (\<forall>k \<in> set (dict_keys (objects t)).
        map_of (counted t) k \<noteq> None \<and> map_of (previousCentroids t) k \<noteq> None \<and>
        map_of (disappeared t) k \<noteq> None)"
proof -
  obtain t where t: "for_each call cs (CentroidTracker_init m) = Inr t" "tracker_inv t"
    using calls_ok [OF inv_init, of cs m] by blast
  from t(2) have "same_keys t" by (rule inv_same_keys)
  moreover from t(2) have "\<forall>k \<in> set (dict_keys (objects t)).
        map_of (counted t) k \<noteq> None \<and> map_of (previousCentroids t) k \<noteq> None \<and>
        map_of (disappeared t) k \<noteq> None"
    unfolding map_of_keys by (simp add: tracker_inv_def)
  ultimately show ?thesis using t(1) by blast
qed

theorem dictionaries_share_keys_witness:
  "\<exists>t. for_each call [Register (3, 4), Update [(4, 0), (100, 0)], Deregister 0, Update []]
          (CentroidTracker_init 40) = Inr t \<and>
     same_keys t \<and> 1 \<in> set (dict_keys (objects t)) \<and>
     map_of (counted t) 1 \<noteq> None \<and> map_of (previousCentroids t) 1 \<noteq> None \<and>
     map_of (disappeared t) 1 \<noteq> None"
proof -
  from dictionaries_share_keys
    [of "[Register (3, 4), Update [(4, 0), (100, 0)], Deregister 0, Update []]" 40]
  obtain t where
    t: "for_each call [Register (3, 4), Update [(4, 0), (100, 0)], Deregister 0, Update []]
          (CentroidTracker_init 40) = Inr t"
    and s: "same_keys t"
    and d: "\<forall>k \<in> set (dict_keys (objects t)).
        map_of (counted t) k \<noteq> None \<and> map_of (previousCentroids t) k \<noteq> None \<and>
        map_of (disappeared t) k \<noteq> None"
    by blast
  have "for_each call [Register (3, 4), Update [(4, 0), (100, 0)], Deregister 0, Update []]
          (CentroidTracker_init 40) =
      Inr \<lparr> nextObjectID = 2, objects = [(1, (100, 0))], disappeared = [(1, 1)],
            previousCentroids = [(1, (100, 0))], counted = [(1, False)], maxDisappeared = 40 \<rparr>"
    by code_simp
  with t have "dict_keys (objects t) = [1]" by (auto simp: dict_keys_def)
  then have k: "1 \<in> set (dict_keys (objects t))" by simp
  with d have "map_of (counted t) 1 \<noteq> None \<and> map_of (previousCentroids t) 1 \<noteq> None \<and>
     map_of (disappeared t) 1 \<noteq> None"
    by blast
  with t s k show ?thesis by blast
qed

end
